theory Spec2Isabelle
  imports Main "HOL-Library.Multiset"
begin

section \<open>The job dispatcher \<open>YACReader::ConcurrentQueue\<close>\<close>

text \<open>
  The class is defined in the header guarded by \<open>CONCURRENT_QUEUE_H\<close>; line numbers
  below are lines of that header.

  The class owns a vector of worker threads, a queue of jobs, the counter \<open>jobsLeft\<close>
  and the flag \<open>bailout\<close>. The queue and the flag are only touched under
  \<open>queueMutex\<close>, the counter only under \<open>jobsLeftMutex\<close>, so every critical section
  of the source is one atomic step of the model, and a run of the program is a
  sequence of such steps chosen by the scheduler (an interleaving).

  The counters are \<open>std::size_t\<close> in the source and \<open>nat\<close> here. Every unit counted
  by \<open>jobsLeft\<close> is a \<open>std::function\<close> object that is alive in memory (held by the
  queue, by a worker, by a thread inside \<open>enqueue\<close> or by the local \<open>oldQueue\<close> of
  \<open>cancelPending\<close>), so the increment cannot reach the end of the \<open>size_t\<close> range.
  The subtraction in \<open>finalizeJobs\<close> is guarded by the source's assertions, which
  are branches of the model.
\<close>

subsection \<open>Jobs\<close>

text \<open>
  A job is a \<open>std::function<void(void)>\<close>. The dispatcher never looks inside it;
  all that matters here is what calling it does: an empty function object throws
  \<open>std::bad_function_call\<close>, a callable either returns or throws. The number is
  the identity of the function object handed to \<open>enqueue\<close>.
\<close>

datatype target = NoTarget | Returning | Throwing

datatype job = Job (ident: nat) (target: target)

datatype behaviour = Returns | Throws

fun invoke :: "job \<Rightarrow> behaviour" where
  "invoke (Job _ NoTarget) = Throws"
| "invoke (Job _ Returning) = Returns"
| "invoke (Job _ Throwing) = Throws"

subsection \<open>Threads and the members of the class\<close>

text \<open>
  Where a worker thread stands in \<open>nextJob\<close>:
  \<^item> \<open>AtLoopTop\<close>: at the top of the loop, before it locks \<open>queueMutex\<close> (line 90);
  \<^item> \<open>WaitingForJob\<close>: blocked in the wait of line 96, the mutex released;
  \<^item> \<open>WokenForJob\<close>: woken, before it locks the mutex again and evaluates the
    predicate of line 97 again;
  \<^item> \<open>Holding j\<close>: it has moved \<open>j\<close> out of the queue and released the mutex (line
    106), and is before \<open>job()\<close> (line 108);
  \<^item> \<open>Finalizing\<close>: \<open>job()\<close> has returned, it is before \<open>finalizeJobs(1)\<close> (line 109);
  \<^item> \<open>Notifying\<close>: in \<open>finalizeJobs\<close>, after the critical section, with
    \<open>remainingJobs == 0\<close>, before \<open>notify_all\<close> (line 126);
  \<^item> \<open>Unwinding\<close>: its job has thrown, the exception is on its way out of \<open>nextJob\<close>;
  \<^item> \<open>Finished\<close>: \<open>nextJob\<close> has returned (line 93 or 101);
  \<^item> \<open>Joined\<close>: the thread has been joined, it is no longer joinable.
\<close>

datatype worker =
    AtLoopTop
  | WaitingForJob
  | WokenForJob
  | Holding job
  | Finalizing
  | Notifying
  | Unwinding
  | Finished
  | Joined

datatype fault = AssertCountPositive | AssertJobsLeftGeCount | UncaughtException

record dispatcher =
  threads :: "worker list"
  queue :: "job list"
  jobsLeft :: nat
  bailout :: bool

text \<open>
  A call of a member function by some client thread, and where it stands:
  \<^item> \<open>Enqueue_Entry j\<close>: \<open>enqueue(j)\<close> has been called; \<open>Enqueue_Emplace j\<close>: the
    counter has been incremented (line 36), the job is not yet in the queue;
    \<open>Enqueue_Notify\<close>: the job is in the queue (line 41), before \<open>notify_one\<close>;
  \<^item> \<open>Cancel_Entry\<close>: \<open>cancelPending()\<close> has been called; \<open>Cancel_Swapped oldQueue\<close>:
    after the swap (line 56), holding the local \<open>oldQueue\<close>; \<open>Cancel_Notify size\<close>: in
    \<open>finalizeJobs(size)\<close> after its critical section, with \<open>remainingJobs == 0\<close>,
    before \<open>notify_all\<close>;
  \<^item> \<open>WaitAll_Entry\<close>: \<open>waitAll()\<close> has been called; \<open>WaitAll_Waiting\<close>: blocked in the
    wait of line 68, the mutex released; \<open>WaitAll_Woken\<close>: woken, before it locks
    the mutex again and evaluates the predicate of line 69 again;
  \<^item> \<open>JoinAll_Entry\<close>: \<open>joinAll()\<close> has been called (by the destructor);
    \<open>JoinAll_Notify\<close>: \<open>bailout\<close> has been set (line 138), before \<open>notify_all\<close>;
    \<open>JoinAll_Join k\<close>: in the loop of line 143, at thread \<open>k\<close>;
  \<^item> \<open>Returned r\<close>: the call has returned, with the value \<open>r\<close> if it has one.
\<close>

datatype call =
    Enqueue_Entry job
  | Enqueue_Emplace job
  | Enqueue_Notify
  | Cancel_Entry
  | Cancel_Swapped "job list"
  | Cancel_Notify nat
  | WaitAll_Entry
  | WaitAll_Waiting
  | WaitAll_Woken
  | JoinAll_Entry
  | JoinAll_Notify
  | JoinAll_Join nat
  | Returned "nat option"

text \<open>
  The whole program: the dispatcher, the calls made so far, the log of the jobs a
  worker has invoked (line 108), the log of the jobs \<open>cancelPending\<close> has swapped
  out of the queue, and the fault that stopped the process, if any.
\<close>

record system =
  disp :: dispatcher
  calls :: "call list"
  executed :: "job list"
  discarded :: "job list"
  halted :: "fault option"

subsection \<open>The critical sections\<close>

text \<open>
  The constructor, lines 17 to 24. The members are initialised (\<open>jobsLeft(0)\<close>,
  \<open>bailout(false)\<close>, an empty vector and an empty queue); then
  \<open>threads.reserve(threadCount)\<close> throws \<open>std::length_error\<close> to the caller when the
  count is above \<open>threads.max_size()\<close>, and otherwise the loop starts one thread per
  iteration, each running \<open>nextJob\<close>. \<open>max_size\<close> is a constant of the standard
  library in use and a parameter here. That the system cannot start a thread or
  has no memory left depends on the machine and is not part of this development.

  \<open>constructed threadCount\<close> is the dispatcher as the constructor leaves it when it
  returns; every run starts there.
\<close>

datatype exception = Length_error

definition reserve :: "nat \<Rightarrow> nat \<Rightarrow> worker list \<Rightarrow> exception + worker list" where
  "reserve max_size n ts = (if n > max_size then Inl Length_error else Inr ts)"

fun spawn :: "nat \<Rightarrow> worker list \<Rightarrow> worker list" where
  "spawn 0 ts = ts"
| "spawn (Suc threadCount) ts = spawn threadCount (ts @ [AtLoopTop])"

definition ConcurrentQueue :: "nat \<Rightarrow> nat \<Rightarrow> exception + system" where
  "ConcurrentQueue max_size threadCount =
     (case reserve max_size threadCount [] of
        Inl x \<Rightarrow> Inl x
      | Inr ts \<Rightarrow>
          Inr \<lparr>disp = \<lparr>threads = spawn threadCount ts, queue = [], jobsLeft = 0,
                       bailout = False\<rparr>,
               calls = [], executed = [], discarded = [], halted = None\<rparr>)"

definition constructed :: "nat \<Rightarrow> system" where
  "constructed threadCount =
     \<lparr>disp = \<lparr>threads = spawn threadCount [], queue = [], jobsLeft = 0, bailout = False\<rparr>,
      calls = [], executed = [], discarded = [], halted = None\<rparr>"

text \<open>
  The parameter is a \<open>std::size_t\<close>; a signed argument is converted to it at the call,
  modulo two to the number of its bits.
\<close>

definition size_t_of_int :: "nat \<Rightarrow> int \<Rightarrow> nat" where
  "size_t_of_int bits c = nat (c mod 2 ^ bits)"

text \<open>\<open>enqueue\<close>, lines 33 to 36 and 38 to 41.\<close>

definition enqueue_count :: "dispatcher \<Rightarrow> dispatcher" where
  "enqueue_count d = d\<lparr>jobsLeft := jobsLeft d + 1\<rparr>"

definition enqueue_emplace :: "job \<Rightarrow> dispatcher \<Rightarrow> dispatcher" where
  "enqueue_emplace j d = d\<lparr>queue := queue d @ [j]\<rparr>"

text \<open>\<open>cancelPending\<close>, lines 50 to 56: the swap with the empty local queue.\<close>

definition cancelPending_swap :: "dispatcher \<Rightarrow> job list \<times> dispatcher" where
  "cancelPending_swap d = (queue d, d\<lparr>queue := []\<rparr>)"

text \<open>\<open>finalizeJobs\<close>, lines 115 to 123: the two assertions, the subtraction, and
  the value of \<open>remainingJobs\<close>.\<close>

definition finalizeJobs :: "nat \<Rightarrow> dispatcher \<Rightarrow> fault + nat \<times> dispatcher" where
  "finalizeJobs count' d =
     (if \<not> count' > 0 then Inl AssertCountPositive
      else if \<not> jobsLeft d \<ge> count' then Inl AssertJobsLeftGeCount
      else Inr (jobsLeft d - count', d\<lparr>jobsLeft := jobsLeft d - count'\<rparr>))"

text \<open>\<open>waitAll\<close>: the test of line 67 followed by the predicate of the wait, and
  the predicate alone when a waiter wakes. \<open>True\<close> means the call returns.\<close>

definition waitAll_pred :: "dispatcher \<Rightarrow> bool" where
  "waitAll_pred d = (jobsLeft d = 0)"

definition waitAll_entry :: "dispatcher \<Rightarrow> bool" where
  "waitAll_entry d = (if jobsLeft d > 0 then waitAll_pred d else True)"

text \<open>\<open>nextJob\<close>: the predicate of line 97, lines 100 to 105, the wait of line 96,
  and the loop body from its top (line 92).\<close>

definition jobAvailable :: "dispatcher \<Rightarrow> bool" where
  "jobAvailable d = (length (queue d) > 0 \<or> bailout d)"

definition nextJob_take :: "dispatcher \<Rightarrow> worker \<times> dispatcher" where
  "nextJob_take d =
     (if bailout d then (Finished, d)
      else (Holding (hd (queue d)), d\<lparr>queue := tl (queue d)\<rparr>))"

definition nextJob_wait :: "dispatcher \<Rightarrow> worker \<times> dispatcher" where
  "nextJob_wait d = (if jobAvailable d then nextJob_take d else (WaitingForJob, d))"

definition nextJob_top :: "dispatcher \<Rightarrow> worker \<times> dispatcher" where
  "nextJob_top d = (if bailout d then (Finished, d) else nextJob_wait d)"

text \<open>\<open>joinAll\<close>, lines 131 to 139: \<open>True\<close> means the early return.\<close>

definition joinAll_entry :: "dispatcher \<Rightarrow> bool \<times> dispatcher" where
  "joinAll_entry d = (if bailout d then (True, d) else (False, d\<lparr>bailout := True\<rparr>))"

subsection \<open>The condition variables\<close>

text \<open>
  A thread blocked in a wait is in state \<open>WaitingForJob\<close> or \<open>WaitAll_Waiting\<close>. A
  notification moves it to the woken state, from where it locks the mutex again
  and evaluates the predicate again. \<open>notify_one\<close> wakes the first waiting worker
  of the vector; that any other one may wake instead is covered by the spurious
  wake-ups, which are steps of the scheduler.
\<close>

fun jobAvailableVar_notify_one :: "worker list \<Rightarrow> worker list" where
  "jobAvailableVar_notify_one [] = []"
| "jobAvailableVar_notify_one (x # xs) =
     (if x = WaitingForJob then WokenForJob # xs else x # jobAvailableVar_notify_one xs)"

definition wake_worker :: "worker \<Rightarrow> worker" where
  "wake_worker x = (if x = WaitingForJob then WokenForJob else x)"

definition jobAvailableVar_notify_all :: "worker list \<Rightarrow> worker list" where
  "jobAvailableVar_notify_all ws = map wake_worker ws"

definition wake_call :: "call \<Rightarrow> call" where
  "wake_call c = (if c = WaitAll_Waiting then WaitAll_Woken else c)"

definition waitVar_notify_all :: "system \<Rightarrow> system" where
  "waitVar_notify_all s = s\<lparr>calls := map wake_call (calls s)\<rparr>"

subsection \<open>Steps of one thread\<close>

definition set_call :: "nat \<Rightarrow> call \<Rightarrow> system \<Rightarrow> system" where
  "set_call i c s = s\<lparr>calls := (calls s)[i := c]\<rparr>"

definition set_worker :: "nat \<Rightarrow> worker \<Rightarrow> system \<Rightarrow> system" where
  "set_worker w x s = s\<lparr>disp := (disp s)\<lparr>threads := (threads (disp s))[w := x]\<rparr>\<rparr>"

text \<open>The next atomic step of call \<open>i\<close>. A call blocked in a wait or in a join
  makes no step; a call that has returned makes none either.\<close>

definition client :: "nat \<Rightarrow> system \<Rightarrow> system" where
  "client i s =
     (case calls s ! i of
        Enqueue_Entry j \<Rightarrow> set_call i (Enqueue_Emplace j) (s\<lparr>disp := enqueue_count (disp s)\<rparr>)
      | Enqueue_Emplace j \<Rightarrow> set_call i Enqueue_Notify (s\<lparr>disp := enqueue_emplace j (disp s)\<rparr>)
      | Enqueue_Notify \<Rightarrow>
          set_call i (Returned None)
            (s\<lparr>disp := (disp s)\<lparr>threads := jobAvailableVar_notify_one (threads (disp s))\<rparr>\<rparr>)
      | Cancel_Entry \<Rightarrow>
          (case cancelPending_swap (disp s) of
             (oldQueue, d) \<Rightarrow>
               set_call i (Cancel_Swapped oldQueue)
                 (s\<lparr>disp := d, discarded := discarded s @ oldQueue\<rparr>))
      | Cancel_Swapped oldQueue \<Rightarrow>
          (if length oldQueue \<noteq> 0 then
             (case finalizeJobs (length oldQueue) (disp s) of
                Inl f \<Rightarrow> s\<lparr>halted := Some f\<rparr>
              | Inr (remainingJobs, d) \<Rightarrow>
                  set_call i
                    (if remainingJobs = 0 then Cancel_Notify (length oldQueue)
                     else Returned (Some (length oldQueue)))
                    (s\<lparr>disp := d\<rparr>))
           else set_call i (Returned (Some (length oldQueue))) s)
      | Cancel_Notify n \<Rightarrow> set_call i (Returned (Some n)) (waitVar_notify_all s)
      | WaitAll_Entry \<Rightarrow>
          set_call i (if waitAll_entry (disp s) then Returned None else WaitAll_Waiting) s
      | WaitAll_Waiting \<Rightarrow> s
      | WaitAll_Woken \<Rightarrow>
          set_call i (if waitAll_pred (disp s) then Returned None else WaitAll_Waiting) s
      | JoinAll_Entry \<Rightarrow>
          (case joinAll_entry (disp s) of
             (early, d) \<Rightarrow>
               set_call i (if early then Returned None else JoinAll_Notify) (s\<lparr>disp := d\<rparr>))
      | JoinAll_Notify \<Rightarrow>
          set_call i (JoinAll_Join 0)
            (s\<lparr>disp := (disp s)\<lparr>threads := jobAvailableVar_notify_all (threads (disp s))\<rparr>\<rparr>)
      | JoinAll_Join k \<Rightarrow>
          (if k < length (threads (disp s)) then
             (case threads (disp s) ! k of
                Joined \<Rightarrow> set_call i (JoinAll_Join (Suc k)) s
              | Finished \<Rightarrow> set_call i (JoinAll_Join (Suc k)) (set_worker k Joined s)
              | _ \<Rightarrow> s)
           else set_call i (Returned None) s)
      | Returned r \<Rightarrow> s)"

text \<open>The next atomic step of worker \<open>w\<close>. An exception that leaves \<open>job()\<close> leaves
  \<open>nextJob\<close> and the thread function with it, which ends the process
  (\<open>std::terminate\<close>); nothing in \<open>nextJob\<close> catches it.\<close>

definition worker_step :: "nat \<Rightarrow> system \<Rightarrow> system" where
  "worker_step w s =
     (case threads (disp s) ! w of
        AtLoopTop \<Rightarrow> (case nextJob_top (disp s) of (x, d) \<Rightarrow> set_worker w x (s\<lparr>disp := d\<rparr>))
      | WaitingForJob \<Rightarrow> s
      | WokenForJob \<Rightarrow> (case nextJob_wait (disp s) of (x, d) \<Rightarrow> set_worker w x (s\<lparr>disp := d\<rparr>))
      | Holding j \<Rightarrow>
          (case invoke j of
             Returns \<Rightarrow> set_worker w Finalizing (s\<lparr>executed := executed s @ [j]\<rparr>)
           | Throws \<Rightarrow>
               set_worker w Unwinding
                 (s\<lparr>executed := executed s @ [j], halted := Some UncaughtException\<rparr>))
      | Finalizing \<Rightarrow>
          (case finalizeJobs 1 (disp s) of
             Inl f \<Rightarrow> s\<lparr>halted := Some f\<rparr>
           | Inr (remainingJobs, d) \<Rightarrow>
               set_worker w (if remainingJobs = 0 then Notifying else AtLoopTop) (s\<lparr>disp := d\<rparr>))
      | Notifying \<Rightarrow> set_worker w AtLoopTop (waitVar_notify_all s)
      | Unwinding \<Rightarrow> s
      | Finished \<Rightarrow> s
      | Joined \<Rightarrow> s)"

subsection \<open>The scheduler\<close>

datatype operation = Enqueue job | CancelPending | WaitAll | JoinAll

fun entry :: "operation \<Rightarrow> call" where
  "entry (Enqueue j) = Enqueue_Entry j"
| "entry CancelPending = Cancel_Entry"
| "entry WaitAll = WaitAll_Entry"
| "entry JoinAll = JoinAll_Entry"

text \<open>
  An event is what happens next: a client thread calls a member function (the
  destructor is a call of \<open>joinAll\<close>), a call or a worker makes its next step, or
  a thread blocked on a condition variable wakes spuriously.
\<close>

datatype event =
    Invoke operation
  | Client nat
  | Worker nat
  | Spurious_waitVar nat
  | Spurious_jobAvailableVar nat

definition step :: "event \<Rightarrow> system \<Rightarrow> system" where
  "step e s =
     (if halted s \<noteq> None then s
      else case e of
        Invoke opn \<Rightarrow> s\<lparr>calls := calls s @ [entry opn]\<rparr>
      | Client i \<Rightarrow> if i < length (calls s) then client i s else s
      | Worker w \<Rightarrow> if w < length (threads (disp s)) then worker_step w s else s
      | Spurious_waitVar i \<Rightarrow>
          if i < length (calls s) \<and> calls s ! i = WaitAll_Waiting
          then set_call i WaitAll_Woken s else s
      | Spurious_jobAvailableVar w \<Rightarrow>
          if w < length (threads (disp s)) \<and> threads (disp s) ! w = WaitingForJob
          then set_worker w WokenForJob s else s)"

fun run :: "event list \<Rightarrow> system \<Rightarrow> system" where
  "run [] s = s"
| "run (e # es) s = run es (step e s)"

subsection \<open>What the counter counts\<close>

text \<open>
  Every job that has been counted by \<open>++jobsLeft\<close> and not yet by a
  \<open>jobsLeft -= count\<close> is in one place: in the queue, with a thread of \<open>enqueue\<close>
  between its two critical sections, in the \<open>oldQueue\<close> of a \<open>cancelPending\<close>
  that has not yet called \<open>finalizeJobs\<close>, or with a worker that has taken it and
  has not yet called \<open>finalizeJobs\<close>.
\<close>

fun call_due :: "call \<Rightarrow> nat" where
  "call_due (Enqueue_Emplace j) = 1"
| "call_due (Cancel_Swapped oldQueue) = length oldQueue"
| "call_due _ = 0"

fun worker_due :: "worker \<Rightarrow> nat" where
  "worker_due (Holding j) = 1"
| "worker_due Finalizing = 1"
| "worker_due Unwinding = 1"
| "worker_due _ = 0"

definition accounted :: "system \<Rightarrow> nat" where
  "accounted s =
     length (queue (disp s)) + sum_list (map call_due (calls s))
       + sum_list (map worker_due (threads (disp s)))"

definition counter_inv :: "system \<Rightarrow> bool" where
  "counter_inv s = (jobsLeft (disp s) = accounted s)"

subsection \<open>Where the jobs are\<close>

text \<open>
  The jobs handed to \<open>enqueue\<close> by the events of a run, and the places a job can
  be in: with the call of \<open>enqueue\<close> that brought it, in the queue, with a worker,
  in the log of the invoked jobs or in the log of the swapped-out jobs.
\<close>

fun call_jobs :: "call \<Rightarrow> job multiset" where
  "call_jobs (Enqueue_Entry j) = {#j#}"
| "call_jobs (Enqueue_Emplace j) = {#j#}"
| "call_jobs _ = {#}"

fun worker_jobs :: "worker \<Rightarrow> job multiset" where
  "worker_jobs (Holding j) = {#j#}"
| "worker_jobs _ = {#}"

definition rest_jobs :: "system \<Rightarrow> job multiset" where
  "rest_jobs s = mset (queue (disp s)) + mset (executed s) + mset (discarded s)"

definition all_jobs :: "system \<Rightarrow> job multiset" where
  "all_jobs s =
     rest_jobs s + sum_list (map call_jobs (calls s))
       + sum_list (map worker_jobs (threads (disp s)))"

fun submitted :: "event list \<Rightarrow> job list" where
  "submitted [] = []"
| "submitted (Invoke (Enqueue j) # es) = j # submitted es"
| "submitted (e # es) = submitted es"

text \<open>The process has not been stopped by one of the assertions of \<open>finalizeJobs\<close>.\<close>

definition no_assert_fault :: "system \<Rightarrow> bool" where
  "no_assert_fault s = (halted s = None \<or> halted s = Some UncaughtException)"

subsection \<open>Calls of \<open>waitAll\<close> and the rest of the program\<close>

text \<open>The call is inside \<open>waitAll\<close>; it is inside \<open>waitAll\<close> or has returned from it.\<close>

fun in_waitAll :: "call \<Rightarrow> bool" where
  "in_waitAll WaitAll_Entry = True"
| "in_waitAll WaitAll_Waiting = True"
| "in_waitAll WaitAll_Woken = True"
| "in_waitAll _ = False"

definition quiet :: "call \<Rightarrow> bool" where
  "quiet c = (in_waitAll c \<or> c = Returned None)"

text \<open>The events of all threads but the one that runs call \<open>i\<close>, and a state with
  call \<open>i\<close> overwritten by a call that has returned.\<close>

definition without_call :: "nat \<Rightarrow> event list \<Rightarrow> event list" where
  "without_call i evs = filter (\<lambda>e. e \<noteq> Client i \<and> e \<noteq> Spurious_waitVar i) evs"

definition returned_at :: "nat \<Rightarrow> system \<Rightarrow> system" where
  "returned_at i s = s\<lparr>calls := (calls s)[i := Returned None]\<rparr>"

subsection \<open>Some runs\<close>

text \<open>
  One worker. A job is submitted, taken by the worker and run; a second job is
  submitted and swapped out by a \<open>cancelPending\<close>. The worker stands before its
  \<open>finalizeJobs(1)\<close>, the \<open>cancelPending\<close> before its \<open>finalizeJobs(size)\<close>.
\<close>

definition run_before_finalize :: "event list" where
  "run_before_finalize =
     [Invoke (Enqueue (Job 0 Returning)), Client 0, Client 0, Client 0, Worker 0, Worker 0,
      Invoke (Enqueue (Job 1 Returning)), Client 1, Client 1,
      Invoke CancelPending, Client 2]"

text \<open>One worker; a job is in the queue and a \<open>cancelPending\<close> has been called.\<close>

definition run_cancel_entry :: "event list" where
  "run_cancel_entry =
     [Invoke (Enqueue (Job 0 Returning)), Client 0, Client 0, Client 0, Invoke CancelPending]"

text \<open>
  One worker. A \<open>waitAll\<close> is made to wait while a job is in flight; the worker
  takes the job, runs it, brings the counter back to zero and wakes the waiter.
\<close>

definition run_waiter_woken :: "event list" where
  "run_waiter_woken =
     [Invoke (Enqueue (Job 0 Returning)), Client 0, Invoke WaitAll, Client 1,
      Client 0, Client 0, Worker 0, Worker 0, Worker 0, Worker 0]"

text \<open>Two workers that wait for a job, and an \<open>enqueue\<close> of an empty function object
  that stands before its \<open>notify_one\<close>.\<close>

definition run_workers_waiting :: "event list" where
  "run_workers_waiting =
     [Worker 0, Worker 1, Invoke (Enqueue (Job 0 NoTarget)), Client 0, Client 0]"

text \<open>One worker that has taken a job which throws.\<close>

definition run_throwing_job :: "event list" where
  "run_throwing_job =
     [Invoke (Enqueue (Job 0 Throwing)), Client 0, Client 0, Client 0, Worker 0]"

section \<open>Invariants of every run\<close>

subsection \<open>The counter\<close>

lemma nth_le_sum_list:
  fixes f :: "'a \<Rightarrow> nat"
  shows "i < length xs \<Longrightarrow> f (xs ! i) \<le> sum_list (map f xs)"
  by (induction xs arbitrary: i) (auto simp: nth_Cons split: nat.splits intro: trans_le_add2)

lemma sum_list_update_nat:
  fixes f :: "'a \<Rightarrow> nat"
  shows "i < length xs \<Longrightarrow>
    sum_list (map f (xs[i := v])) = sum_list (map f xs) - f (xs ! i) + f v"
proof (induction xs arbitrary: i)
  case Nil
  then show ?case by simp
next
  case (Cons x xs)
  show ?case
  proof (cases i)
    case 0
    then show ?thesis by simp
  next
    case (Suc k)
    with Cons.prems have k: "k < length xs" by simp
    from nth_le_sum_list[OF k, of f] Cons.IH[OF k] Suc show ?thesis by simp
  qed
qed

lemma call_due_wake: "call_due (wake_call c) = call_due c"
  by (simp add: wake_call_def)

lemma call_due_comp_wake: "call_due \<circ> wake_call = call_due"
  by (rule ext) (simp add: call_due_wake)

lemma due_wake_call: "map call_due (map wake_call cs) = map call_due cs"
  by (simp add: call_due_comp_wake)

lemma due_notify_all: "map worker_due (jobAvailableVar_notify_all ws) = map worker_due ws"
  by (induction ws) (auto simp: jobAvailableVar_notify_all_def wake_worker_def)

lemma due_notify_one: "map worker_due (jobAvailableVar_notify_one ws) = map worker_due ws"
  by (induction ws) auto

lemma counter_inv_client:
  assumes "i < length (calls s)" "counter_inv s"
  shows "counter_inv (client i s)"
proof -
  note le = nth_le_sum_list[OF assms(1), of call_due]
  show ?thesis
  proof (cases "calls s ! i")
    case (Cancel_Swapped old)
    with assms le show ?thesis
      by (cases "old = []")
         (auto simp: client_def counter_inv_def accounted_def set_call_def finalizeJobs_def
            sum_list_update_nat)
  next
    case (JoinAll_Join k)
    with assms le show ?thesis
      by (cases "threads (disp s) ! k")
         (auto simp: client_def counter_inv_def accounted_def set_call_def set_worker_def
            sum_list_update_nat)
  qed (use assms le in \<open>auto simp: client_def counter_inv_def accounted_def set_call_def
         enqueue_count_def enqueue_emplace_def cancelPending_swap_def waitVar_notify_all_def
         joinAll_entry_def due_wake_call call_due_wake call_due_comp_wake due_notify_all due_notify_one sum_list_update_nat
         simp flip: map_update\<close>)
qed

lemma counter_inv_worker:
  assumes "w < length (threads (disp s))" "counter_inv s"
  shows "counter_inv (worker_step w s)"
proof -
  note le = nth_le_sum_list[OF assms(1), of worker_due]
  show ?thesis
  proof (cases "threads (disp s) ! w")
    case AtLoopTop
    with assms le show ?thesis
      by (cases "queue (disp s)")
         (auto simp: worker_step_def counter_inv_def accounted_def set_worker_def
            nextJob_top_def nextJob_wait_def nextJob_take_def jobAvailable_def
            sum_list_update_nat)
  next
    case WokenForJob
    with assms le show ?thesis
      by (cases "queue (disp s)")
         (auto simp: worker_step_def counter_inv_def accounted_def set_worker_def
            nextJob_wait_def nextJob_take_def jobAvailable_def sum_list_update_nat)
  next
    case (Holding j)
    with assms le show ?thesis
      by (cases "invoke j")
         (auto simp: worker_step_def counter_inv_def accounted_def set_worker_def
            sum_list_update_nat)
  next
    case Finalizing
    with assms le show ?thesis
      by (auto simp: worker_step_def counter_inv_def accounted_def set_worker_def
            finalizeJobs_def sum_list_update_nat)
  next
    case Notifying
    with assms le show ?thesis
      by (auto simp: worker_step_def counter_inv_def accounted_def set_worker_def
            waitVar_notify_all_def call_due_comp_wake sum_list_update_nat)
  qed (use assms in \<open>auto simp: worker_step_def\<close>)
qed

lemma counter_inv_step: "counter_inv s \<Longrightarrow> counter_inv (step e s)"
proof (cases e)
  case (Spurious_waitVar i)
  assume "counter_inv s"
  with Spurious_waitVar show ?thesis
    by (auto simp: step_def counter_inv_def accounted_def set_call_def sum_list_update_nat)
next
  case (Spurious_jobAvailableVar w)
  assume "counter_inv s"
  with Spurious_jobAvailableVar show ?thesis
    by (auto simp: step_def counter_inv_def accounted_def set_worker_def sum_list_update_nat)
next
  case (Invoke opn)
  assume "counter_inv s"
  with Invoke show ?thesis
    by (cases opn) (auto simp: step_def counter_inv_def accounted_def)
qed (auto simp: step_def counter_inv_client counter_inv_worker)

lemma counter_inv_run: "counter_inv s \<Longrightarrow> counter_inv (run evs s)"
  by (induction evs arbitrary: s) (auto simp: counter_inv_step)

lemma counter_inv_init: "counter_inv (constructed n)"
proof -
  have "map worker_due (spawn k ts) = map worker_due ts @ replicate k 0" for k ts
    by (induction k ts rule: spawn.induct) (auto simp: replicate_app_Cons_same)
  then show ?thesis
    by (simp add: counter_inv_def accounted_def constructed_def)
qed

subsection \<open>The jobs\<close>

lemma sum_list_update_mset:
  fixes ms :: "'b multiset list"
  shows "i < length ms \<Longrightarrow> sum_list (ms[i := m]) + ms ! i = sum_list ms + m"
  by (induction ms arbitrary: i) (auto simp: nth_Cons split: nat.splits)

lemma call_jobs_comp_wake: "call_jobs \<circ> wake_call = call_jobs"
  by (rule ext) (simp add: wake_call_def)

lemma jobs_notify_all: "map worker_jobs (jobAvailableVar_notify_all ws) = map worker_jobs ws"
  by (induction ws) (auto simp: jobAvailableVar_notify_all_def wake_worker_def)

lemma jobs_notify_one: "map worker_jobs (jobAvailableVar_notify_one ws) = map worker_jobs ws"
  by (induction ws) auto

lemma all_jobs_call_moves:
  assumes "i < length (calls s)"
    and "map call_jobs (calls s') = (map call_jobs (calls s))[i := m]"
    and "map worker_jobs (threads (disp s')) = map worker_jobs (threads (disp s))"
    and "rest_jobs s' + m = rest_jobs s + call_jobs (calls s ! i)"
  shows "all_jobs s' = all_jobs s"
proof -
  from assms(1) have "sum_list ((map call_jobs (calls s))[i := m]) + call_jobs (calls s ! i)
      = sum_list (map call_jobs (calls s)) + m"
    using sum_list_update_mset[of i "map call_jobs (calls s)" m] by simp
  with assms(2,3,4) have "all_jobs s' + (m + call_jobs (calls s ! i))
      = all_jobs s + (m + call_jobs (calls s ! i))"
    by (simp add: all_jobs_def ac_simps)
  then show ?thesis by simp
qed

lemma all_jobs_worker_moves:
  assumes "w < length (threads (disp s))"
    and "map worker_jobs (threads (disp s')) = (map worker_jobs (threads (disp s)))[w := m]"
    and "map call_jobs (calls s') = map call_jobs (calls s)"
    and "rest_jobs s' + m = rest_jobs s + worker_jobs (threads (disp s) ! w)"
  shows "all_jobs s' = all_jobs s"
proof -
  from assms(1) have "sum_list ((map worker_jobs (threads (disp s)))[w := m])
        + worker_jobs (threads (disp s) ! w)
      = sum_list (map worker_jobs (threads (disp s))) + m"
    using sum_list_update_mset[of w "map worker_jobs (threads (disp s))" m] by simp
  with assms(2,3,4) have "all_jobs s' + (m + worker_jobs (threads (disp s) ! w))
      = all_jobs s + (m + worker_jobs (threads (disp s) ! w))"
    by (simp add: all_jobs_def ac_simps)
  then show ?thesis by simp
qed

lemma map_update_same: "xs ! i = c \<Longrightarrow> f c = m \<Longrightarrow> map f xs = (map f xs)[i := m]"
  by (metis list_update_id map_update)

lemma all_jobs_client:
  assumes "i < length (calls s)"
  shows "all_jobs (client i s) = all_jobs s"
proof (cases "calls s ! i")
  case (Enqueue_Entry j)
  then show ?thesis
    by (intro all_jobs_call_moves[OF assms, where m = "{#j#}"])
       (simp_all add: client_def set_call_def map_update enqueue_count_def rest_jobs_def)
next
  case (Enqueue_Emplace j)
  then show ?thesis
    by (intro all_jobs_call_moves[OF assms, where m = "{#}"])
       (simp_all add: client_def set_call_def map_update enqueue_emplace_def rest_jobs_def)
next
  case Enqueue_Notify
  then show ?thesis
    by (intro all_jobs_call_moves[OF assms, where m = "{#}"])
       (simp_all add: client_def set_call_def map_update jobs_notify_one rest_jobs_def)
next
  case Cancel_Entry
  then show ?thesis
    by (intro all_jobs_call_moves[OF assms, where m = "{#}"])
       (simp_all add: client_def set_call_def map_update cancelPending_swap_def rest_jobs_def)
next
  case (Cancel_Swapped old)
  then show ?thesis
    by (intro all_jobs_call_moves[OF assms, where m = "{#}"])
       (auto simp: client_def set_call_def map_update finalizeJobs_def rest_jobs_def
          intro: map_update_same)
next
  case (Cancel_Notify k)
  then show ?thesis
    by (intro all_jobs_call_moves[OF assms, where m = "{#}"])
       (simp_all add: client_def set_call_def map_update waitVar_notify_all_def
          call_jobs_comp_wake rest_jobs_def)
next
  case WaitAll_Entry
  then show ?thesis
    by (intro all_jobs_call_moves[OF assms, where m = "{#}"])
       (simp_all add: client_def set_call_def map_update rest_jobs_def)
next
  case WaitAll_Waiting
  then show ?thesis by (simp add: client_def)
next
  case WaitAll_Woken
  then show ?thesis
    by (intro all_jobs_call_moves[OF assms, where m = "{#}"])
       (simp_all add: client_def set_call_def map_update rest_jobs_def)
next
  case JoinAll_Entry
  then show ?thesis
    by (intro all_jobs_call_moves[OF assms, where m = "{#}"])
       (simp_all add: client_def set_call_def map_update joinAll_entry_def rest_jobs_def)
next
  case JoinAll_Notify
  then show ?thesis
    by (intro all_jobs_call_moves[OF assms, where m = "{#}"])
       (simp_all add: client_def set_call_def map_update jobs_notify_all rest_jobs_def)
next
  case (JoinAll_Join k)
  show ?thesis
  proof (cases "k < length (threads (disp s))")
    case True
    show ?thesis
    proof (cases "threads (disp s) ! k")
      case Finished
      with True JoinAll_Join show ?thesis
        by (intro all_jobs_call_moves[OF assms, where m = "{#}"])
           (auto simp: client_def set_call_def set_worker_def map_update rest_jobs_def
              intro: map_update_same[symmetric])
    next
      case Joined
      with True JoinAll_Join show ?thesis
        by (intro all_jobs_call_moves[OF assms, where m = "{#}"])
           (simp_all add: client_def set_call_def map_update rest_jobs_def)
    qed (use True JoinAll_Join in \<open>simp_all add: client_def\<close>)
  next
    case False
    with JoinAll_Join show ?thesis
      by (intro all_jobs_call_moves[OF assms, where m = "{#}"])
         (simp_all add: client_def set_call_def map_update rest_jobs_def)
  qed
next
  case (Returned r)
  then show ?thesis by (simp add: client_def)
qed

lemma all_jobs_worker:
  assumes "w < length (threads (disp s))"
  shows "all_jobs (worker_step w s) = all_jobs s"
proof (cases "threads (disp s) ! w")
  case AtLoopTop
  then show ?thesis
    by (cases "queue (disp s)";
        intro all_jobs_worker_moves[OF assms, where m = "worker_jobs (fst (nextJob_top (disp s)))"])
       (simp_all add: worker_step_def set_worker_def map_update rest_jobs_def
          nextJob_top_def nextJob_wait_def nextJob_take_def jobAvailable_def)
next
  case WokenForJob
  then show ?thesis
    by (cases "queue (disp s)";
        intro all_jobs_worker_moves[OF assms, where m = "worker_jobs (fst (nextJob_wait (disp s)))"])
       (simp_all add: worker_step_def set_worker_def map_update rest_jobs_def
          nextJob_wait_def nextJob_take_def jobAvailable_def)
next
  case (Holding j)
  then show ?thesis
    by (cases "invoke j"; intro all_jobs_worker_moves[OF assms, where m = "{#}"])
       (auto simp: worker_step_def set_worker_def map_update rest_jobs_def)
next
  case Finalizing
  then show ?thesis
    by (intro all_jobs_worker_moves[OF assms, where m = "{#}"])
       (auto simp: worker_step_def set_worker_def map_update rest_jobs_def finalizeJobs_def
          intro: map_update_same)
next
  case Notifying
  then show ?thesis
    by (intro all_jobs_worker_moves[OF assms, where m = "{#}"])
       (simp_all add: worker_step_def set_worker_def map_update rest_jobs_def
          waitVar_notify_all_def call_jobs_comp_wake)
qed (simp_all add: worker_step_def)

lemma all_jobs_step:
  "halted s = None \<Longrightarrow> all_jobs (step e s) = all_jobs s + mset (submitted [e])"
proof (cases e)
  case (Invoke opn)
  assume "halted s = None"
  with Invoke show ?thesis
    by (cases opn) (simp_all add: step_def all_jobs_def rest_jobs_def)
next
  case (Client i)
  then show ?thesis by (simp add: step_def all_jobs_client)
next
  case (Worker w)
  then show ?thesis by (simp add: step_def all_jobs_worker)
next
  case (Spurious_waitVar i)
  then show ?thesis
    by (auto simp: step_def set_call_def map_update rest_jobs_def
          intro!: all_jobs_call_moves[where m = "{#}" and i = i])
next
  case (Spurious_jobAvailableVar w)
  then show ?thesis
    by (auto simp: step_def set_worker_def map_update rest_jobs_def
          intro!: all_jobs_worker_moves[where m = "{#}" and w = w])
qed

lemma halted_step: "halted s \<noteq> None \<Longrightarrow> step e s = s"
  by (simp add: step_def)

lemma halted_run: "halted s \<noteq> None \<Longrightarrow> run evs s = s"
  by (induction evs) (simp_all add: halted_step)

lemma all_jobs_run: "all_jobs (run evs s) \<subseteq># all_jobs s + mset (submitted evs)"
proof (induction evs arbitrary: s)
  case Nil
  then show ?case by simp
next
  case (Cons e evs)
  show ?case
  proof (cases "halted s")
    case None
    have sub: "mset (submitted (e # evs)) = mset (submitted [e]) + mset (submitted evs)"
      by (cases "e # evs" rule: submitted.cases) auto
    show ?thesis using Cons.IH[of "step e s"] all_jobs_step[OF None, of e]
      by (simp add: sub ac_simps)
  next
    case (Some f)
    then show ?thesis by (simp add: halted_run halted_step)
  qed
qed

lemma run_append: "run (xs @ ys) s = run ys (run xs s)"
  by (induction xs arbitrary: s) simp_all

lemma counter_inv_reachable: "counter_inv (run evs (constructed n))"
  by (rule counter_inv_run) (rule counter_inv_init)

text \<open>\<open>front()\<close> and \<open>pop()\<close> are only reached with a job in the queue.\<close>

lemma nextJob_wait_front:
  "nextJob_wait d = (Holding j, d') \<Longrightarrow> queue d = j # queue d' \<and> \<not> bailout d"
  by (cases "queue d")
     (auto simp: nextJob_wait_def nextJob_take_def jobAvailable_def split: if_splits)

lemma nextJob_top_front:
  "nextJob_top d = (Holding j, d') \<Longrightarrow> queue d = j # queue d' \<and> \<not> bailout d"
  by (auto simp: nextJob_top_def nextJob_wait_front split: if_splits)

subsection \<open>The assertions of \<open>finalizeJobs\<close>\<close>

lemma due_le_jobsLeft_call:
  assumes "counter_inv s" "i < length (calls s)"
  shows "call_due (calls s ! i) \<le> jobsLeft (disp s)"
  using assms nth_le_sum_list[of i "calls s" call_due]
  by (simp add: counter_inv_def accounted_def)

lemma due_le_jobsLeft_worker:
  assumes "counter_inv s" "w < length (threads (disp s))"
  shows "worker_due (threads (disp s) ! w) \<le> jobsLeft (disp s)"
  using assms nth_le_sum_list[of w "threads (disp s)" worker_due]
  by (simp add: counter_inv_def accounted_def)

lemma no_assert_fault_client:
  assumes "counter_inv s" "i < length (calls s)" "no_assert_fault s"
  shows "no_assert_fault (client i s)"
proof (cases "calls s ! i")
  case (Cancel_Swapped old)
  with assms due_le_jobsLeft_call[OF assms(1,2)] show ?thesis
    by (auto simp: no_assert_fault_def client_def set_call_def finalizeJobs_def)
next
  case (JoinAll_Join k)
  with assms show ?thesis
    by (cases "threads (disp s) ! k")
       (auto simp: no_assert_fault_def client_def set_call_def set_worker_def)
qed (use assms in \<open>auto simp: no_assert_fault_def client_def set_call_def
       cancelPending_swap_def waitVar_notify_all_def joinAll_entry_def\<close>)

lemma no_assert_fault_worker:
  assumes "counter_inv s" "w < length (threads (disp s))" "no_assert_fault s"
  shows "no_assert_fault (worker_step w s)"
proof (cases "threads (disp s) ! w")
  case Finalizing
  with assms due_le_jobsLeft_worker[OF assms(1,2)] show ?thesis
    by (auto simp: no_assert_fault_def worker_step_def set_worker_def finalizeJobs_def)
next
  case (Holding j)
  with assms show ?thesis
    by (cases "invoke j") (auto simp: no_assert_fault_def worker_step_def set_worker_def)
qed (use assms in \<open>auto simp: no_assert_fault_def worker_step_def set_worker_def
       nextJob_top_def nextJob_wait_def nextJob_take_def waitVar_notify_all_def\<close>)

lemma no_assert_fault_step:
  assumes "counter_inv s" "no_assert_fault s"
  shows "no_assert_fault (step e s)"
proof (cases e)
  case (Client i)
  with assms show ?thesis by (simp add: step_def no_assert_fault_client)
next
  case (Worker w)
  with assms show ?thesis by (simp add: step_def no_assert_fault_worker)
qed (use assms in \<open>auto simp: step_def no_assert_fault_def set_call_def set_worker_def\<close>)

lemma no_assert_fault_run:
  "counter_inv s \<Longrightarrow> no_assert_fault s \<Longrightarrow> no_assert_fault (run evs s)"
  by (induction evs arbitrary: s) (simp_all add: counter_inv_step no_assert_fault_step)

lemma no_assert_fault_reachable: "no_assert_fault (run evs (constructed n))"
  by (rule no_assert_fault_run[OF counter_inv_init])
     (simp add: no_assert_fault_def constructed_def)

subsection \<open>What a step leaves alone\<close>

lemma step_Client:
  "halted s = None \<Longrightarrow> i < length (calls s) \<Longrightarrow> step (Client i) s = client i s"
  by (simp add: step_def)

lemma step_Worker:
  "halted s = None \<Longrightarrow> w < length (threads (disp s)) \<Longrightarrow> step (Worker w) s = worker_step w s"
  by (simp add: step_def)

lemma length_calls_client: "length (calls (client k s)) = length (calls s)"
proof (cases "calls s ! k")
  case (JoinAll_Join n)
  then show ?thesis
    by (cases "threads (disp s) ! n")
       (auto simp: client_def set_call_def set_worker_def)
qed (auto simp: client_def set_call_def cancelPending_swap_def finalizeJobs_def
       waitVar_notify_all_def joinAll_entry_def)

lemma length_calls_worker: "length (calls (worker_step w s)) = length (calls s)"
proof (cases "threads (disp s) ! w")
  case (Holding j)
  then show ?thesis
    by (cases "invoke j") (auto simp: worker_step_def set_worker_def)
qed (auto simp: worker_step_def set_worker_def finalizeJobs_def waitVar_notify_all_def
       nextJob_top_def nextJob_wait_def nextJob_take_def)

lemma calls_client_other:
  assumes "k \<noteq> i" "i < length (calls s)"
  shows "calls (client k s) ! i = calls s ! i \<or> calls (client k s) ! i = wake_call (calls s ! i)"
proof (cases "calls s ! k")
  case (JoinAll_Join n)
  with assms show ?thesis
    by (cases "threads (disp s) ! n")
       (auto simp: client_def set_call_def set_worker_def)
qed (use assms in \<open>auto simp: client_def set_call_def cancelPending_swap_def finalizeJobs_def
       waitVar_notify_all_def joinAll_entry_def\<close>)

lemma calls_worker_other:
  assumes "i < length (calls s)"
  shows "calls (worker_step w s) ! i = calls s ! i
       \<or> calls (worker_step w s) ! i = wake_call (calls s ! i)"
proof (cases "threads (disp s) ! w")
  case (Holding j)
  then show ?thesis
    by (cases "invoke j") (auto simp: worker_step_def set_worker_def)
qed (use assms in \<open>auto simp: worker_step_def set_worker_def finalizeJobs_def
       waitVar_notify_all_def nextJob_top_def nextJob_wait_def nextJob_take_def\<close>)

lemma calls_step_other:
  assumes "e \<noteq> Client i" "i < length (calls s)"
  shows "calls (step e s) ! i = calls s ! i \<or> calls (step e s) ! i = wake_call (calls s ! i)"
proof (cases e)
  case (Invoke opn)
  with assms show ?thesis by (simp add: step_def nth_append)
next
  case (Client k)
  with assms calls_client_other[of k i s] show ?thesis by (auto simp: step_def)
next
  case (Worker w)
  with assms calls_worker_other[of i s w] show ?thesis by (auto simp: step_def)
next
  case (Spurious_waitVar k)
  with assms show ?thesis
    by (cases "k = i") (auto simp: step_def set_call_def wake_call_def)
next
  case (Spurious_jobAvailableVar w)
  with assms show ?thesis by (auto simp: step_def set_worker_def)
qed

lemma length_calls_step: "length (calls s) \<le> length (calls (step e s))"
  by (cases e) (auto simp: step_def length_calls_client length_calls_worker set_call_def
                  set_worker_def)

lemma bailout_client: "bailout (disp s) \<Longrightarrow> bailout (disp (client k s))"
proof (cases "calls s ! k")
  case (JoinAll_Join n)
  assume "bailout (disp s)"
  with JoinAll_Join show ?thesis
    by (cases "threads (disp s) ! n")
       (auto simp: client_def set_call_def set_worker_def)
qed (auto simp: client_def set_call_def cancelPending_swap_def finalizeJobs_def
       waitVar_notify_all_def joinAll_entry_def enqueue_count_def enqueue_emplace_def)

lemma bailout_worker: "bailout (disp s) \<Longrightarrow> bailout (disp (worker_step w s))"
proof (cases "threads (disp s) ! w")
  case (Holding j)
  assume "bailout (disp s)"
  with Holding show ?thesis
    by (cases "invoke j") (auto simp: worker_step_def set_worker_def)
qed (auto simp: worker_step_def set_worker_def finalizeJobs_def waitVar_notify_all_def
       nextJob_top_def nextJob_wait_def nextJob_take_def)

lemma bailout_step: "bailout (disp s) \<Longrightarrow> bailout (disp (step e s))"
  by (cases e) (auto simp: step_def bailout_client bailout_worker set_call_def set_worker_def)

lemma list_update_nth_same: "xs ! i = c \<Longrightarrow> xs[i := c] = xs"
  by (metis list_update_id)

lemma submitted_append: "submitted (xs @ ys) = submitted xs @ submitted ys"
  by (induction xs rule: submitted.induct) simp_all

lemma discarded_client: "set (discarded s) \<subseteq> set (discarded (client k s))"
proof (cases "calls s ! k")
  case (JoinAll_Join n)
  then show ?thesis
    by (cases "threads (disp s) ! n")
       (auto simp: client_def set_call_def set_worker_def)
qed (auto simp: client_def set_call_def cancelPending_swap_def finalizeJobs_def
       waitVar_notify_all_def joinAll_entry_def)

lemma discarded_worker: "discarded (worker_step w s) = discarded s"
proof (cases "threads (disp s) ! w")
  case (Holding j)
  then show ?thesis
    by (cases "invoke j") (auto simp: worker_step_def set_worker_def)
qed (auto simp: worker_step_def set_worker_def finalizeJobs_def waitVar_notify_all_def
       nextJob_top_def nextJob_wait_def nextJob_take_def)

lemma discarded_step: "set (discarded s) \<subseteq> set (discarded (step e s))"
  using discarded_client[of s]
  by (cases e) (auto simp: step_def discarded_worker set_call_def set_worker_def)

lemma discarded_run: "set (discarded s) \<subseteq> set (discarded (run evs s))"
proof (induction evs arbitrary: s)
  case Nil
  then show ?case by simp
next
  case (Cons e evs)
  from discarded_step[of s e] Cons.IH[of "step e s"] show ?case by auto
qed

lemma all_jobs_init: "all_jobs (constructed n) = {#}"
proof -
  have "map worker_jobs (spawn k ts) = map worker_jobs ts @ replicate k {#}" for k ts
    by (induction k ts rule: spawn.induct) (auto simp: replicate_app_Cons_same)
  moreover have "sum_list (replicate k ({#} :: job multiset)) = {#}" for k
    by (induction k) simp_all
  ultimately show ?thesis
    by (simp add: all_jobs_def rest_jobs_def constructed_def)
qed

lemma logs_in_all_jobs: "mset (executed s) + mset (discarded s) \<subseteq># all_jobs s"
  by (simp add: all_jobs_def rest_jobs_def)

lemma executed_discarded_disjoint:
  assumes "distinct (submitted evs)"
  shows "set (executed (run evs (constructed n)))
           \<inter> set (discarded (run evs (constructed n))) = {}"
proof (rule ccontr)
  let ?s = "run evs (constructed n)"
  assume "set (executed ?s) \<inter> set (discarded ?s) \<noteq> {}"
  then obtain j where j: "j \<in> set (executed ?s)" "j \<in> set (discarded ?s)" by auto
  then have "1 \<le> count (mset (executed ?s)) j" "1 \<le> count (mset (discarded ?s)) j"
    by (simp_all add: Suc_le_eq)
  then have "2 \<le> count (mset (executed ?s)) j + count (mset (discarded ?s)) j"
    by linarith
  then have "2 \<le> count (mset (executed ?s) + mset (discarded ?s)) j"
    by (simp only: count_union)
  also have "\<dots> \<le> count (all_jobs ?s) j"
    using logs_in_all_jobs[of ?s] by (rule mset_subset_eq_count)
  also have "\<dots> \<le> count (mset (submitted evs)) j"
    using all_jobs_run[of evs "constructed n"]
    by (simp add: all_jobs_init mset_subset_eq_count)
  also have "\<dots> \<le> 1"
    using assms by (simp add: distinct_count_atmost_1)
  finally show False by simp
qed

lemma spawn_replicate: "spawn k ts = ts @ replicate k AtLoopTop"
  by (induction k ts rule: spawn.induct) (simp_all add: replicate_app_Cons_same)

lemma no_threads_client:
  assumes "threads (disp s) = []"
  shows "threads (disp (client k s)) = [] \<and> executed (client k s) = executed s"
proof (cases "calls s ! k")
  case (JoinAll_Join n)
  with assms show ?thesis
    by (auto simp: client_def set_call_def)
qed (use assms in \<open>auto simp: client_def set_call_def cancelPending_swap_def finalizeJobs_def
       waitVar_notify_all_def joinAll_entry_def enqueue_count_def enqueue_emplace_def
       jobAvailableVar_notify_all_def\<close>)

lemma no_threads_step:
  assumes "threads (disp s) = []"
  shows "threads (disp (step e s)) = [] \<and> executed (step e s) = executed s"
  using assms no_threads_client[OF assms]
  by (cases e) (auto simp: step_def set_call_def)

lemma no_threads_run:
  "threads (disp s) = [] \<Longrightarrow> executed (run evs s) = executed s"
  by (induction evs arbitrary: s) (simp_all add: no_threads_step)

lemma in_waitAll_wake: "in_waitAll (wake_call c) = in_waitAll c"
  by (cases c) (simp_all add: wake_call_def)

lemma length_notify_one: "length (jobAvailableVar_notify_one ws) = length ws"
  by (induction ws) simp_all

lemma nth_notify_one:
  "w < length ws \<Longrightarrow>
     jobAvailableVar_notify_one ws ! w = ws ! w
     \<or> jobAvailableVar_notify_one ws ! w = wake_worker (ws ! w)"
proof (induction ws arbitrary: w)
  case Nil
  then show ?case by simp
next
  case (Cons x xs)
  show ?case
  proof (cases w)
    case 0
    then show ?thesis by (simp add: wake_worker_def)
  next
    case (Suc v)
    with Cons.prems have "v < length xs" by simp
    from Cons.IH[OF this] Suc show ?thesis by auto
  qed
qed

lemma threads_client_other:
  assumes "w < length (threads (disp s))"
  shows "threads (disp (client k s)) ! w = threads (disp s) ! w
       \<or> threads (disp (client k s)) ! w = wake_worker (threads (disp s) ! w)
       \<or> threads (disp s) ! w = Finished"
proof (cases "calls s ! k")
  case Enqueue_Notify
  with assms nth_notify_one[OF assms] show ?thesis
    by (auto simp: client_def set_call_def)
next
  case (JoinAll_Join n)
  with assms show ?thesis
    by (cases "threads (disp s) ! n"; cases "n = w")
       (auto simp: client_def set_call_def set_worker_def)
qed (use assms in \<open>auto simp: client_def set_call_def cancelPending_swap_def finalizeJobs_def
       waitVar_notify_all_def joinAll_entry_def enqueue_count_def enqueue_emplace_def
       jobAvailableVar_notify_all_def\<close>)

lemma threads_worker_other:
  assumes "v \<noteq> w"
  shows "threads (disp (worker_step v s)) ! w = threads (disp s) ! w"
proof (cases "threads (disp s) ! v")
  case (Holding j)
  with assms show ?thesis
    by (cases "invoke j") (auto simp: worker_step_def set_worker_def)
qed (use assms in \<open>auto simp: worker_step_def set_worker_def finalizeJobs_def
       waitVar_notify_all_def nextJob_top_def nextJob_wait_def nextJob_take_def\<close>)

lemma threads_step_other:
  assumes "e \<noteq> Worker w" "w < length (threads (disp s))"
  shows "threads (disp (step e s)) ! w = threads (disp s) ! w
       \<or> threads (disp (step e s)) ! w = wake_worker (threads (disp s) ! w)
       \<or> threads (disp s) ! w = Finished"
proof (cases e)
  case (Client k)
  with threads_client_other[OF assms(2), of k] show ?thesis by (auto simp: step_def)
next
  case (Worker v)
  with assms threads_worker_other[of v w s] show ?thesis by (auto simp: step_def)
next
  case (Spurious_jobAvailableVar v)
  with assms show ?thesis
    by (cases "v = w") (auto simp: step_def set_worker_def wake_worker_def)
qed (use assms in \<open>auto simp: step_def set_call_def\<close>)

lemma no_waiter_after_notify_all: "WaitAll_Waiting \<notin> set (map wake_call cs)"
  by (induction cs) (auto simp: wake_call_def)

lemma no_waiter_after_update:
  "c \<noteq> WaitAll_Waiting \<Longrightarrow> WaitAll_Waiting \<notin> set ((map wake_call cs)[i := c])"
  using set_update_subset_insert[of "map wake_call cs" i c] no_waiter_after_notify_all[of cs]
  by auto

subsection \<open>Calls of \<open>waitAll\<close> do not interfere\<close>

lemma wake_call_update:
  "map wake_call (cs[i := Returned None]) = (map wake_call cs)[i := Returned None]"
  by (simp add: map_update wake_call_def)

lemma returned_at_client:
  assumes "k \<noteq> i"
  shows "returned_at i (client k s) = client k (returned_at i s)"
proof (cases "calls s ! k")
  case (JoinAll_Join n)
  with assms show ?thesis
    by (cases "threads (disp s) ! n")
       (auto simp: client_def returned_at_def set_call_def set_worker_def
          list_update_swap[of k i])
next
  case (Cancel_Swapped old)
  with assms show ?thesis
    by (auto simp: client_def returned_at_def set_call_def finalizeJobs_def
          list_update_swap[of k i])
qed (use assms in \<open>auto simp: client_def returned_at_def set_call_def cancelPending_swap_def
       waitVar_notify_all_def joinAll_entry_def wake_call_update list_update_swap[of k i]\<close>)

lemma returned_at_worker:
  "returned_at i (worker_step w s) = worker_step w (returned_at i s)"
proof (cases "threads (disp s) ! w")
  case (Holding j)
  then show ?thesis
    by (cases "invoke j") (auto simp: worker_step_def returned_at_def set_worker_def)
next
  case AtLoopTop
  then show ?thesis
    by (cases "nextJob_top (disp s)") (auto simp: worker_step_def returned_at_def set_worker_def)
next
  case WokenForJob
  then show ?thesis
    by (cases "nextJob_wait (disp s)") (auto simp: worker_step_def returned_at_def set_worker_def)
qed (auto simp: worker_step_def returned_at_def set_worker_def finalizeJobs_def
       waitVar_notify_all_def wake_call_update)

lemma returned_at_step_other:
  assumes "e \<noteq> Client i" "e \<noteq> Spurious_waitVar i" "i < length (calls s)"
  shows "returned_at i (step e s) = step e (returned_at i s)"
proof (cases "halted s")
  case (Some f)
  then show ?thesis by (simp add: step_def returned_at_def)
next
  case None
  show ?thesis
  proof (cases e)
    case (Invoke opn)
    with None assms show ?thesis
      by (simp add: step_def returned_at_def list_update_append1)
  next
    case (Client k)
    with None assms returned_at_client[of k i s] show ?thesis
      by (auto simp: step_def) (simp_all add: returned_at_def)
  next
    case (Worker w)
    with None returned_at_worker[of i w s] show ?thesis
      by (auto simp: step_def) (simp_all add: returned_at_def)
  next
    case (Spurious_waitVar k)
    with None assms show ?thesis
      by (auto simp: step_def returned_at_def set_call_def list_update_swap[of k i])
  next
    case (Spurious_jobAvailableVar w)
    with None show ?thesis
      by (auto simp: step_def returned_at_def set_worker_def)
  qed
qed

lemma returned_at_step_own:
  assumes "quiet (calls s ! i)" "e = Client i \<or> e = Spurious_waitVar i"
  shows "returned_at i (step e s) = returned_at i s"
  using assms
  by (cases "calls s ! i")
     (auto simp: quiet_def step_def client_def set_call_def returned_at_def)

lemma quiet_wake: "quiet (wake_call c) = quiet c"
  by (simp add: quiet_def in_waitAll_wake) (simp add: wake_call_def)

lemma quiet_step:
  assumes "i < length (calls s)" "quiet (calls s ! i)"
  shows "quiet (calls (step e s) ! i)"
proof (cases "e = Client i")
  case True
  with assms show ?thesis
    by (cases "calls s ! i")
       (auto simp: quiet_def step_def client_def set_call_def)
next
  case False
  from calls_step_other[OF False assms(1)] assms(2) show ?thesis
    by (auto simp: quiet_wake)
qed

lemma returned_at_run:
  "i < length (calls s) \<Longrightarrow> quiet (calls s ! i) \<Longrightarrow>
     returned_at i (run evs s) = run (without_call i evs) (returned_at i s)"
proof (induction evs arbitrary: s)
  case Nil
  then show ?case by (simp add: without_call_def)
next
  case (Cons e evs)
  have len: "i < length (calls (step e s))"
    using Cons.prems(1) length_calls_step[of s e] by simp
  have q: "quiet (calls (step e s) ! i)"
    using Cons.prems by (rule quiet_step)
  note IH = Cons.IH[OF len q]
  show ?case
  proof (cases "e = Client i \<or> e = Spurious_waitVar i")
    case True
    with IH returned_at_step_own[OF Cons.prems(2) True] show ?thesis
      by (auto simp: without_call_def)
  next
    case False
    with IH returned_at_step_other[of e i s] Cons.prems(1) show ?thesis
      by (auto simp: without_call_def)
  qed
qed

lemma without_call_idem: "without_call i (without_call i evs) = without_call i evs"
  by (simp add: without_call_def)

lemma returned_at_same_run:
  assumes "i < length (calls s)" "quiet (calls s ! i)"
  shows "returned_at i (run evs s) = returned_at i (run (without_call i evs) s)"
  using returned_at_run[OF assms, of evs] returned_at_run[OF assms, of "without_call i evs"]
  by (simp add: without_call_idem)

lemma returned_at_fields:
  assumes "returned_at i s = returned_at i t"
  shows "disp s = disp t \<and> executed s = executed t \<and> discarded s = discarded t
       \<and> halted s = halted t"
proof -
  have "disp (returned_at i s) = disp s" "executed (returned_at i s) = executed s"
    "discarded (returned_at i s) = discarded s" "halted (returned_at i s) = halted s"
    "disp (returned_at i t) = disp t" "executed (returned_at i t) = executed t"
    "discarded (returned_at i t) = discarded t" "halted (returned_at i t) = halted t"
    by (simp_all add: returned_at_def)
  with assms show ?thesis by metis
qed

subsection \<open>\<open>notify_one\<close>\<close>

lemma notify_one_none:
  "WaitingForJob \<notin> set ws \<Longrightarrow> jobAvailableVar_notify_one ws = ws"
  by (induction ws) auto

lemma notify_one_some:
  "WaitingForJob \<in> set ws \<Longrightarrow>
     \<exists>w<length ws. ws ! w = WaitingForJob
       \<and> jobAvailableVar_notify_one ws = ws[w := WokenForJob]"
proof (induction ws)
  case Nil
  then show ?case by simp
next
  case (Cons x xs)
  show ?case
  proof (cases "x = WaitingForJob")
    case True
    then have "0 < length (x # xs) \<and> (x # xs) ! 0 = WaitingForJob
        \<and> jobAvailableVar_notify_one (x # xs) = (x # xs)[0 := WokenForJob]"
      by simp
    then show ?thesis by blast
  next
    case False
    with Cons.prems have "WaitingForJob \<in> set xs" by simp
    from Cons.IH[OF this] obtain w where w: "w < length xs" "xs ! w = WaitingForJob"
        "jobAvailableVar_notify_one xs = xs[w := WokenForJob]"
      by blast
    with False have "Suc w < length (x # xs) \<and> (x # xs) ! Suc w = WaitingForJob
        \<and> jobAvailableVar_notify_one (x # xs) = (x # xs)[Suc w := WokenForJob]"
      by simp
    then show ?thesis by blast
  qed
qed

subsection \<open>Evaluating a run\<close>

lemmas model_defs =
  constructed_def step_def client_def worker_step_def set_call_def set_worker_def
  enqueue_count_def enqueue_emplace_def cancelPending_swap_def finalizeJobs_def
  waitAll_pred_def waitAll_entry_def jobAvailable_def nextJob_take_def nextJob_wait_def
  nextJob_top_def joinAll_entry_def wake_worker_def jobAvailableVar_notify_all_def
  wake_call_def waitVar_notify_all_def

section \<open>The claims\<close>

text \<open>
  C1. In a state reached from the constructor, the first step of a \<open>cancelPending\<close>
  is one critical section that leaves the queue empty and hands the whole former
  queue to the call; \<open>jobsLeft\<close> is not touched by it. None of the jobs taken out
  is in the log of invoked jobs, whatever events follow (the jobs handed to
  \<open>enqueue\<close> being distinct objects). The next step of the call, whenever it comes,
  finds \<open>jobsLeft\<close> at least the number of jobs taken out, subtracts exactly that
  number and stops nothing; the call then returns that number, at once or after
  its \<open>notify_all\<close>. Between its steps no other thread changes what the call
  holds.
\<close>

theorem cancelPending_swaps_and_finalizes:
  assumes "s = run evs (constructed threadCount)"
    and "halted s = None" and "i < length (calls s)"
  shows
  "(calls s ! i = Cancel_Entry \<longrightarrow>
      queue (disp (step (Client i) s)) = []
      \<and> calls (step (Client i) s) ! i = Cancel_Swapped (queue (disp s))
      \<and> jobsLeft (disp (step (Client i) s)) = jobsLeft (disp s)
      \<and> (distinct (submitted (evs @ later)) \<longrightarrow>
            set (queue (disp s)) \<inter> set (executed (run later (step (Client i) s))) = {}))
   \<and> (calls s ! i = Cancel_Swapped oldQueue \<longrightarrow>
      length oldQueue \<le> jobsLeft (disp s)
      \<and> jobsLeft (disp (step (Client i) s)) = jobsLeft (disp s) - length oldQueue
      \<and> queue (disp (step (Client i) s)) = queue (disp s)
      \<and> halted (step (Client i) s) = None
      \<and> (calls (step (Client i) s) ! i = Returned (Some (length oldQueue))
           \<or> calls (step (Client i) s) ! i = Cancel_Notify (length oldQueue))
      \<and> (e \<noteq> Client i \<longrightarrow> calls (step e s) ! i = Cancel_Swapped oldQueue))
   \<and> (calls s ! i = Cancel_Notify size' \<longrightarrow>
      disp (step (Client i) s) = disp s
      \<and> calls (step (Client i) s) ! i = Returned (Some size')
      \<and> (e \<noteq> Client i \<longrightarrow> calls (step e s) ! i = Cancel_Notify size'))"
proof (intro conjI impI)
  assume c: "calls s ! i = Cancel_Entry"
  from c assms(2,3) show "queue (disp (step (Client i) s)) = []"
    and "calls (step (Client i) s) ! i = Cancel_Swapped (queue (disp s))"
    and "jobsLeft (disp (step (Client i) s)) = jobsLeft (disp s)"
    by (simp_all add: step_Client client_def cancelPending_swap_def set_call_def)
  assume d: "distinct (submitted (evs @ later))"
  let ?t = "run later (step (Client i) s)"
  have t: "?t = run (evs @ Client i # later) (constructed threadCount)"
    by (simp add: run_append assms(1))
  from d have "distinct (submitted (evs @ Client i # later))"
    by (simp add: submitted_append)
  then have "set (executed ?t) \<inter> set (discarded ?t) = {}"
    unfolding t by (rule executed_discarded_disjoint)
  moreover from c assms(2,3) have "set (queue (disp s)) \<subseteq> set (discarded (step (Client i) s))"
    by (simp add: step_Client client_def cancelPending_swap_def set_call_def)
  with discarded_run[of "step (Client i) s" later]
  have "set (queue (disp s)) \<subseteq> set (discarded ?t)" by blast
  ultimately show "set (queue (disp s)) \<inter> set (executed ?t) = {}" by blast
next
  assume c: "calls s ! i = Cancel_Swapped oldQueue"
  have inv: "counter_inv s" unfolding assms(1) by (rule counter_inv_reachable)
  from due_le_jobsLeft_call[OF inv assms(3)] c
  show le: "length oldQueue \<le> jobsLeft (disp s)" by simp
  from c le assms(2,3)
  show "jobsLeft (disp (step (Client i) s)) = jobsLeft (disp s) - length oldQueue"
    and "queue (disp (step (Client i) s)) = queue (disp s)"
    and "halted (step (Client i) s) = None"
    and "calls (step (Client i) s) ! i = Returned (Some (length oldQueue))
           \<or> calls (step (Client i) s) ! i = Cancel_Notify (length oldQueue)"
    by (auto simp: step_Client client_def finalizeJobs_def set_call_def)
  assume "e \<noteq> Client i"
  from calls_step_other[OF this assms(3)] c
  show "calls (step e s) ! i = Cancel_Swapped oldQueue"
    by (simp add: wake_call_def)
next
  assume c: "calls s ! i = Cancel_Notify size'"
  from c assms(2,3)
  show "disp (step (Client i) s) = disp s"
    and "calls (step (Client i) s) ! i = Returned (Some size')"
    by (simp_all add: step_Client client_def set_call_def waitVar_notify_all_def)
  assume "e \<noteq> Client i"
  from calls_step_other[OF this assms(3)] c
  show "calls (step e s) ! i = Cancel_Notify size'"
    by (simp add: wake_call_def)
qed

text \<open>The theorem on concrete runs.\<close>

theorem cancelPending_swaps_and_finalizes_witness:
  "calls (run run_cancel_entry (constructed 1)) ! 1 = Cancel_Entry
   \<and> queue (disp (run run_cancel_entry (constructed 1))) = [Job 0 Returning]
   \<and> queue (disp (step (Client 1) (run run_cancel_entry (constructed 1)))) = []
   \<and> calls (step (Client 1) (run run_cancel_entry (constructed 1))) ! 1
       = Cancel_Swapped [Job 0 Returning]
   \<and> set [Job 0 Returning]
        \<inter> set (executed (run [Worker 0, Worker 0]
            (step (Client 1) (run run_cancel_entry (constructed 1))))) = {}
   \<and> calls (run (run_cancel_entry @ [Client 1]) (constructed 1)) ! 1
       = Cancel_Swapped [Job 0 Returning]
   \<and> jobsLeft (disp (run (run_cancel_entry @ [Client 1]) (constructed 1))) = 1
   \<and> jobsLeft (disp (step (Client 1)
        (run (run_cancel_entry @ [Client 1]) (constructed 1)))) = 0
   \<and> halted (step (Client 1)
        (run (run_cancel_entry @ [Client 1]) (constructed 1))) = None
   \<and> calls (run (run_cancel_entry @ [Client 1, Client 1]) (constructed 1)) ! 1
       = Cancel_Notify 1
   \<and> calls (step (Client 1)
        (run (run_cancel_entry @ [Client 1, Client 1]) (constructed 1))) ! 1
       = Returned (Some 1)
   \<and> calls (step (Worker 0)
        (run (run_cancel_entry @ [Client 1]) (constructed 1))) ! 1
       = Cancel_Swapped [Job 0 Returning]
   \<and> calls (step (Invoke WaitAll)
        (run (run_cancel_entry @ [Client 1, Client 1]) (constructed 1))) ! 1
       = Cancel_Notify 1"
proof -
  let ?a = "run run_cancel_entry (constructed 1)"
  let ?b = "run (run_cancel_entry @ [Client 1]) (constructed 1)"
  let ?c = "run (run_cancel_entry @ [Client 1, Client 1]) (constructed 1)"
  have a: "?a = \<lparr>disp = \<lparr>threads = [AtLoopTop], queue = [Job 0 Returning], jobsLeft = 1,
        bailout = False\<rparr>,
      calls = [Returned None, Cancel_Entry], executed = [], discarded = [], halted = None\<rparr>"
    by (simp add: run_cancel_entry_def model_defs)
  have b: "?b = \<lparr>disp = \<lparr>threads = [AtLoopTop], queue = [], jobsLeft = 1, bailout = False\<rparr>,
      calls = [Returned None, Cancel_Swapped [Job 0 Returning]], executed = [],
      discarded = [Job 0 Returning], halted = None\<rparr>"
    by (simp add: run_cancel_entry_def model_defs)
  have c: "?c = \<lparr>disp = \<lparr>threads = [AtLoopTop], queue = [], jobsLeft = 0, bailout = False\<rparr>,
      calls = [Returned None, Cancel_Notify 1], executed = [],
      discarded = [Job 0 Returning], halted = None\<rparr>"
    by (simp add: run_cancel_entry_def model_defs)
  have ha: "halted ?a = None" "1 < length (calls ?a)" "calls ?a ! 1 = Cancel_Entry"
      "queue (disp ?a) = [Job 0 Returning]"
    unfolding a by simp_all
  have hb: "halted ?b = None" "1 < length (calls ?b)"
      "calls ?b ! 1 = Cancel_Swapped [Job 0 Returning]" "jobsLeft (disp ?b) = 1"
    unfolding b by simp_all
  have hc: "halted ?c = None" "1 < length (calls ?c)" "calls ?c ! 1 = Cancel_Notify 1"
    unfolding c by simp_all
  have d: "distinct (submitted (run_cancel_entry @ [Worker 0, Worker 0]))"
    by (simp add: run_cancel_entry_def)
  from cancelPending_swaps_and_finalizes[OF refl ha(1,2), of "[Worker 0, Worker 0]"] ha(3) d
  have ra: "queue (disp (step (Client 1) ?a)) = []"
    "calls (step (Client 1) ?a) ! 1 = Cancel_Swapped (queue (disp ?a))"
    "set (queue (disp ?a)) \<inter> set (executed (run [Worker 0, Worker 0] (step (Client 1) ?a))) = {}"
    by blast+
  from cancelPending_swaps_and_finalizes[OF refl hb(1,2), of _ "[Job 0 Returning]" "Worker 0"]
    hb(3)
  have rb: "jobsLeft (disp (step (Client 1) ?b)) = jobsLeft (disp ?b) - length [Job 0 Returning]"
    "halted (step (Client 1) ?b) = None"
    "calls (step (Worker 0) ?b) ! 1 = Cancel_Swapped [Job 0 Returning]"
    by simp_all
  from cancelPending_swaps_and_finalizes[OF refl hc(1,2), of _ _ "Invoke WaitAll" 1] hc(3)
  have rc: "calls (step (Client 1) ?c) ! 1 = Returned (Some 1)"
    "calls (step (Invoke WaitAll) ?c) ! 1 = Cancel_Notify 1"
    by simp_all
  from ha hb hc ra rb rc show ?thesis by simp
qed

text \<open>
  C2. In every state that a sequence of events (calls of \<open>enqueue\<close>,
  \<open>cancelPending\<close>, \<open>waitAll\<close> and \<open>joinAll\<close>, steps of these calls, steps of the
  workers, spurious wake-ups) reaches from the constructed dispatcher, \<open>jobsLeft\<close> is
  at least the size of the queue; and whatever happens next in such a state, it
  still is afterwards.
\<close>

theorem jobsLeft_ge_queue_size:
  "length (queue (disp (run evs (constructed threadCount))))
     \<le> jobsLeft (disp (run evs (constructed threadCount)))
   \<and> length (queue (disp (step e (run evs (constructed threadCount)))))
     \<le> jobsLeft (disp (step e (run evs (constructed threadCount))))"
proof -
  have "length (queue (disp (run es (constructed threadCount))))
          \<le> jobsLeft (disp (run es (constructed threadCount)))" for es
    using counter_inv_reachable[of es threadCount]
    by (simp add: counter_inv_def accounted_def)
  from this[of evs] this[of "evs @ [e]"] show ?thesis
    by (simp add: run_append)
qed

text \<open>The theorem on concrete runs.\<close>

theorem jobsLeft_ge_queue_size_witness:
  "length (queue (disp (run [Invoke (Enqueue (Job 0 Returning)), Client 0, Client 0,
        Invoke (Enqueue (Job 1 Returning)), Client 1] (constructed 1))))
     \<le> jobsLeft (disp (run [Invoke (Enqueue (Job 0 Returning)), Client 0, Client 0,
        Invoke (Enqueue (Job 1 Returning)), Client 1] (constructed 1)))
   \<and> length (queue (disp (step (Worker 0) (run [Invoke (Enqueue (Job 0 Returning)),
        Client 0, Client 0, Invoke (Enqueue (Job 1 Returning)), Client 1]
        (constructed 1)))))
     \<le> jobsLeft (disp (step (Worker 0) (run [Invoke (Enqueue (Job 0 Returning)),
        Client 0, Client 0, Invoke (Enqueue (Job 1 Returning)), Client 1]
        (constructed 1))))
   \<and> jobsLeft (disp (run [Invoke (Enqueue (Job 0 Returning)), Client 0, Client 0,
        Invoke (Enqueue (Job 1 Returning)), Client 1] (constructed 1))) = 2
   \<and> queue (disp (run [Invoke (Enqueue (Job 0 Returning)), Client 0, Client 0,
        Invoke (Enqueue (Job 1 Returning)), Client 1] (constructed 1)))
        = [Job 0 Returning]"
  using jobsLeft_ge_queue_size[of "[Invoke (Enqueue (Job 0 Returning)), Client 0, Client 0,
        Invoke (Enqueue (Job 1 Returning)), Client 1]" 1 "Worker 0"]
  by (simp add: model_defs)

text \<open>
  C3, as the code has it. A job of any kind, the empty function object included, is
  accepted by \<open>enqueue\<close>: the first step adds one to \<open>jobsLeft\<close>, the second appends
  the job to the queue, the third is \<open>notify_one\<close> and the return. The \<open>notify_one\<close>
  wakes one worker that waits for a job, if there is one, and changes no other
  thread; the first two steps change no thread. Nothing is signalled to the caller
  and no step stops the process.
\<close>

theorem enqueue_accepts_empty_job:
  assumes "halted s = None" and "i < length (calls s)"
  shows
  "(calls s ! i = Enqueue_Entry (Job k t) \<longrightarrow>
      jobsLeft (disp (step (Client i) s)) = jobsLeft (disp s) + 1
      \<and> queue (disp (step (Client i) s)) = queue (disp s)
      \<and> threads (disp (step (Client i) s)) = threads (disp s)
      \<and> calls (step (Client i) s) ! i = Enqueue_Emplace (Job k t)
      \<and> halted (step (Client i) s) = None
      \<and> jobsLeft (disp (run [Client i, Client i, Client i] s)) = jobsLeft (disp s) + 1
      \<and> queue (disp (run [Client i, Client i, Client i] s)) = queue (disp s) @ [Job k t]
      \<and> threads (disp (run [Client i, Client i, Client i] s))
          = jobAvailableVar_notify_one (threads (disp s))
      \<and> calls (run [Client i, Client i, Client i] s) ! i = Returned None
      \<and> halted (run [Client i, Client i, Client i] s) = None)
   \<and> (calls s ! i = Enqueue_Emplace (Job k t) \<longrightarrow>
      jobsLeft (disp (step (Client i) s)) = jobsLeft (disp s)
      \<and> queue (disp (step (Client i) s)) = queue (disp s) @ [Job k t]
      \<and> threads (disp (step (Client i) s)) = threads (disp s)
      \<and> calls (step (Client i) s) ! i = Enqueue_Notify
      \<and> halted (step (Client i) s) = None)
   \<and> (calls s ! i = Enqueue_Notify \<longrightarrow>
      jobsLeft (disp (step (Client i) s)) = jobsLeft (disp s)
      \<and> queue (disp (step (Client i) s)) = queue (disp s)
      \<and> calls (step (Client i) s) ! i = Returned None
      \<and> halted (step (Client i) s) = None
      \<and> threads (disp (step (Client i) s)) = jobAvailableVar_notify_one (threads (disp s))
      \<and> (WaitingForJob \<notin> set (threads (disp s)) \<longrightarrow>
            threads (disp (step (Client i) s)) = threads (disp s))
      \<and> (WaitingForJob \<in> set (threads (disp s)) \<longrightarrow>
            (\<exists>w<length (threads (disp s)). threads (disp s) ! w = WaitingForJob
               \<and> threads (disp (step (Client i) s))
                   = (threads (disp s))[w := WokenForJob])))"
proof (intro conjI impI)
  assume c: "calls s ! i = Enqueue_Entry (Job k t)"
  with assms show "jobsLeft (disp (step (Client i) s)) = jobsLeft (disp s) + 1"
    and "queue (disp (step (Client i) s)) = queue (disp s)"
    and "threads (disp (step (Client i) s)) = threads (disp s)"
    and "calls (step (Client i) s) ! i = Enqueue_Emplace (Job k t)"
    and "halted (step (Client i) s) = None"
    and "jobsLeft (disp (run [Client i, Client i, Client i] s)) = jobsLeft (disp s) + 1"
    and "queue (disp (run [Client i, Client i, Client i] s)) = queue (disp s) @ [Job k t]"
    and "threads (disp (run [Client i, Client i, Client i] s))
          = jobAvailableVar_notify_one (threads (disp s))"
    and "calls (run [Client i, Client i, Client i] s) ! i = Returned None"
    and "halted (run [Client i, Client i, Client i] s) = None"
    by (simp_all add: step_def client_def set_call_def enqueue_count_def enqueue_emplace_def)
next
  assume c: "calls s ! i = Enqueue_Emplace (Job k t)"
  with assms show "jobsLeft (disp (step (Client i) s)) = jobsLeft (disp s)"
    and "queue (disp (step (Client i) s)) = queue (disp s) @ [Job k t]"
    and "threads (disp (step (Client i) s)) = threads (disp s)"
    and "calls (step (Client i) s) ! i = Enqueue_Notify"
    and "halted (step (Client i) s) = None"
    by (simp_all add: step_def client_def set_call_def enqueue_emplace_def)
next
  assume c: "calls s ! i = Enqueue_Notify"
  with assms show "jobsLeft (disp (step (Client i) s)) = jobsLeft (disp s)"
    and "queue (disp (step (Client i) s)) = queue (disp s)"
    and "calls (step (Client i) s) ! i = Returned None"
    and "halted (step (Client i) s) = None"
    and n: "threads (disp (step (Client i) s)) = jobAvailableVar_notify_one (threads (disp s))"
    by (simp_all add: step_def client_def set_call_def)
  {
    assume "WaitingForJob \<notin> set (threads (disp s))"
    then show "threads (disp (step (Client i) s)) = threads (disp s)"
      unfolding n by (rule notify_one_none)
  }
  {
    assume "WaitingForJob \<in> set (threads (disp s))"
    then show "\<exists>w<length (threads (disp s)). threads (disp s) ! w = WaitingForJob
               \<and> threads (disp (step (Client i) s))
                   = (threads (disp s))[w := WokenForJob]"
      unfolding n by (rule notify_one_some)
  }
qed

text \<open>The sentence of the spec fails on this run: one worker, an empty function
  object is submitted. The call returns, and the counter and the queue have changed.\<close>

theorem enqueue_empty_job_counterexample:
  "run [Invoke (Enqueue (Job 0 NoTarget)), Client 0, Client 0, Client 0] (constructed 1)
     = \<lparr>disp = \<lparr>threads = [AtLoopTop], queue = [Job 0 NoTarget], jobsLeft = 1,
          bailout = False\<rparr>,
        calls = [Returned None], executed = [], discarded = [], halted = None\<rparr>
   \<and> jobsLeft (disp (constructed 1)) = 0
   \<and> queue (disp (constructed 1)) = []"
  by (simp add: model_defs)

text \<open>The theorem on concrete runs.\<close>

theorem enqueue_accepts_empty_job_witness:
  "calls (run [Invoke (Enqueue (Job 0 NoTarget))] (constructed 1)) ! 0
     = Enqueue_Entry (Job 0 NoTarget)
   \<and> jobsLeft (disp (step (Client 0) (run [Invoke (Enqueue (Job 0 NoTarget))]
        (constructed 1)))) = 1
   \<and> queue (disp (run [Client 0, Client 0, Client 0]
        (run [Invoke (Enqueue (Job 0 NoTarget))] (constructed 1)))) = [Job 0 NoTarget]
   \<and> calls (run [Client 0, Client 0, Client 0]
        (run [Invoke (Enqueue (Job 0 NoTarget))] (constructed 1))) ! 0 = Returned None
   \<and> halted (run [Client 0, Client 0, Client 0]
        (run [Invoke (Enqueue (Job 0 NoTarget))] (constructed 1))) = None
   \<and> calls (run [Invoke (Enqueue (Job 0 NoTarget)), Client 0] (constructed 1)) ! 0
     = Enqueue_Emplace (Job 0 NoTarget)
   \<and> queue (disp (step (Client 0) (run [Invoke (Enqueue (Job 0 NoTarget)), Client 0]
        (constructed 1)))) = [Job 0 NoTarget]
   \<and> calls (run [Invoke (Enqueue (Job 0 NoTarget)), Client 0, Client 0]
        (constructed 1)) ! 0 = Enqueue_Notify
   \<and> calls (step (Client 0) (run [Invoke (Enqueue (Job 0 NoTarget)), Client 0, Client 0]
        (constructed 1))) ! 0 = Returned None
   \<and> threads (disp (run [Invoke (Enqueue (Job 0 NoTarget)), Client 0, Client 0]
        (constructed 1))) = [AtLoopTop]
   \<and> threads (disp (step (Client 0) (run [Invoke (Enqueue (Job 0 NoTarget)), Client 0,
        Client 0] (constructed 1)))) = [AtLoopTop]
   \<and> calls (run run_workers_waiting (constructed 2)) ! 0 = Enqueue_Notify
   \<and> threads (disp (run run_workers_waiting (constructed 2)))
       = [WaitingForJob, WaitingForJob]
   \<and> threads (disp (step (Client 0) (run run_workers_waiting (constructed 2))))
       = [WokenForJob, WaitingForJob]
   \<and> queue (disp (step (Client 0) (run run_workers_waiting (constructed 2))))
       = [Job 0 NoTarget]
   \<and> calls (step (Client 0) (run run_workers_waiting (constructed 2))) ! 0 = Returned None"
proof -
  let ?a = "run [Invoke (Enqueue (Job 0 NoTarget))] (constructed 1)"
  let ?b = "run [Invoke (Enqueue (Job 0 NoTarget)), Client 0] (constructed 1)"
  let ?c = "run [Invoke (Enqueue (Job 0 NoTarget)), Client 0, Client 0] (constructed 1)"
  have a: "?a = \<lparr>disp = \<lparr>threads = [AtLoopTop], queue = [], jobsLeft = 0, bailout = False\<rparr>,
      calls = [Enqueue_Entry (Job 0 NoTarget)], executed = [], discarded = [], halted = None\<rparr>"
    by (simp add: model_defs)
  have b: "?b = \<lparr>disp = \<lparr>threads = [AtLoopTop], queue = [], jobsLeft = 1, bailout = False\<rparr>,
      calls = [Enqueue_Emplace (Job 0 NoTarget)], executed = [], discarded = [], halted = None\<rparr>"
    by (simp add: model_defs)
  have c: "?c = \<lparr>disp = \<lparr>threads = [AtLoopTop], queue = [Job 0 NoTarget], jobsLeft = 1,
        bailout = False\<rparr>,
      calls = [Enqueue_Notify], executed = [], discarded = [], halted = None\<rparr>"
    by (simp add: model_defs)
  have ha: "halted ?a = None" "0 < length (calls ?a)"
      "calls ?a ! 0 = Enqueue_Entry (Job 0 NoTarget)"
      "jobsLeft (disp ?a) = 0" "queue (disp ?a) = []"
    unfolding a by simp_all
  have hb: "halted ?b = None" "0 < length (calls ?b)"
      "calls ?b ! 0 = Enqueue_Emplace (Job 0 NoTarget)" "queue (disp ?b) = []"
    unfolding b by simp_all
  have hc: "halted ?c = None" "0 < length (calls ?c)" "calls ?c ! 0 = Enqueue_Notify"
    unfolding c by simp_all
  from enqueue_accepts_empty_job[OF ha(1,2), of 0 NoTarget] ha(3)
  have ra: "jobsLeft (disp (step (Client 0) ?a)) = jobsLeft (disp ?a) + 1"
    "queue (disp (run [Client 0, Client 0, Client 0] ?a)) = queue (disp ?a) @ [Job 0 NoTarget]"
    "calls (run [Client 0, Client 0, Client 0] ?a) ! 0 = Returned None"
    "halted (run [Client 0, Client 0, Client 0] ?a) = None"
    by blast+
  from enqueue_accepts_empty_job[OF hb(1,2), of 0 NoTarget] hb(3)
  have rb: "queue (disp (step (Client 0) ?b)) = queue (disp ?b) @ [Job 0 NoTarget]"
    by blast
  from enqueue_accepts_empty_job[OF hc(1,2)] hc(3)
  have rc: "calls (step (Client 0) ?c) ! 0 = Returned None"
    by blast
  have tc: "threads (disp ?c) = [AtLoopTop]" "WaitingForJob \<notin> set (threads (disp ?c))"
    unfolding c by simp_all
  from enqueue_accepts_empty_job[OF hc(1,2)] hc(3) tc(2)
  have rc': "threads (disp (step (Client 0) ?c)) = threads (disp ?c)"
    by blast
  let ?d = "run run_workers_waiting (constructed 2)"
  have d: "?d = \<lparr>disp = \<lparr>threads = [WaitingForJob, WaitingForJob],
        queue = [Job 0 NoTarget], jobsLeft = 1, bailout = False\<rparr>,
      calls = [Enqueue_Notify], executed = [], discarded = [], halted = None\<rparr>"
    by (simp add: run_workers_waiting_def model_defs numeral_2_eq_2)
  have hd: "halted ?d = None" "0 < length (calls ?d)" "calls ?d ! 0 = Enqueue_Notify"
      "threads (disp ?d) = [WaitingForJob, WaitingForJob]" "queue (disp ?d) = [Job 0 NoTarget]"
    unfolding d by simp_all
  from enqueue_accepts_empty_job[OF hd(1,2)] hd(3)
  have rd: "threads (disp (step (Client 0) ?d)) = jobAvailableVar_notify_one (threads (disp ?d))"
    "queue (disp (step (Client 0) ?d)) = queue (disp ?d)"
    "calls (step (Client 0) ?d) ! 0 = Returned None"
    by blast+
  from ha hb hc hd ra rb rc rc' rd tc show ?thesis by simp
qed

text \<open>
  C4, as the code has it. The constructor called with zero signals nothing: it
  returns a dispatcher with no workers, an empty queue, a counter of zero and the
  flag unset, and on that dispatcher no job is ever invoked. With any count up to
  \<open>max_size\<close> it returns a dispatcher with that many workers at the top of their
  loop. A count above \<open>max_size\<close> is signalled to the caller, by the
  \<open>std::length_error\<close> of \<open>reserve\<close>; a negative argument converts to such a count.
\<close>

theorem constructor_accepts_zero:
  "ConcurrentQueue max_size 0 = Inr (constructed 0)
   \<and> halted (constructed 0) = None
   \<and> threads (disp (constructed 0)) = []
   \<and> queue (disp (constructed 0)) = []
   \<and> jobsLeft (disp (constructed 0)) = 0
   \<and> bailout (disp (constructed 0)) = False
   \<and> executed (run evs (constructed 0)) = []
   \<and> (threadCount \<le> max_size \<longrightarrow>
        ConcurrentQueue max_size threadCount = Inr (constructed threadCount)
        \<and> halted (constructed threadCount) = None
        \<and> threads (disp (constructed threadCount)) = replicate threadCount AtLoopTop
        \<and> queue (disp (constructed threadCount)) = []
        \<and> jobsLeft (disp (constructed threadCount)) = 0
        \<and> bailout (disp (constructed threadCount)) = False)
   \<and> (threadCount > max_size \<longrightarrow>
        ConcurrentQueue max_size threadCount = Inl Length_error)
   \<and> (c < 0 \<and> int max_size - c < 2 ^ bits \<longrightarrow>
        ConcurrentQueue max_size (size_t_of_int bits c) = Inl Length_error)"
proof -
  have ok: "ConcurrentQueue max_size n = Inr (constructed n)" if "n \<le> max_size" for n
    using that by (simp add: ConcurrentQueue_def reserve_def constructed_def)
  have bad: "ConcurrentQueue max_size n = Inl Length_error" if "n > max_size" for n
    using that by (simp add: ConcurrentQueue_def reserve_def)
  have fields: "halted (constructed n) = None
      \<and> threads (disp (constructed n)) = replicate n AtLoopTop
      \<and> queue (disp (constructed n)) = []
      \<and> jobsLeft (disp (constructed n)) = 0
      \<and> bailout (disp (constructed n)) = False" for n
    by (simp add: constructed_def spawn_replicate)
  have idle: "executed (run evs (constructed 0)) = []"
    using no_threads_run[of "constructed 0" evs]
    by (simp add: constructed_def)
  have neg: "size_t_of_int bits c > max_size" if "c < 0" "int max_size - c < 2 ^ bits"
  proof -
    from that have "0 \<le> 2 ^ bits + c" "2 ^ bits + c < (2::int) ^ bits" by simp_all
    then have "(2 ^ bits + c) mod 2 ^ bits = 2 ^ bits + c"
      by (rule mod_pos_pos_trivial)
    then have "c mod 2 ^ bits = 2 ^ bits + c"
      by simp
    with that show ?thesis
      by (simp add: size_t_of_int_def)
  qed
  from ok[of 0] ok[of threadCount] bad[of threadCount] bad[OF neg] fields[of 0]
    fields[of threadCount] idle
  show ?thesis by simp
qed

text \<open>The sentence of the spec fails here: the constructor called with zero returns
  a dispatcher without workers and throws nothing. The bound is \<open>max_size\<close> of a
  vector of eight-byte elements with 64-bit addresses.\<close>

theorem constructor_zero_counterexample:
  "ConcurrentQueue 1152921504606846975 0
     = Inr \<lparr>disp = \<lparr>threads = [], queue = [], jobsLeft = 0, bailout = False\<rparr>,
            calls = [], executed = [], discarded = [], halted = None\<rparr>"
  by (simp add: ConcurrentQueue_def reserve_def)

text \<open>The theorem on concrete runs.\<close>

theorem constructor_accepts_zero_witness:
  "ConcurrentQueue 1152921504606846975 0 = Inr (constructed 0)
   \<and> threads (disp (constructed 0)) = []
   \<and> jobsLeft (disp (constructed 0)) = 0
   \<and> executed (run [Invoke (Enqueue (Job 0 Returning)), Client 0, Client 0, Client 0,
        Worker 0, Invoke WaitAll, Client 1] (constructed 0)) = []
   \<and> calls (run [Invoke (Enqueue (Job 0 Returning)), Client 0, Client 0, Client 0,
        Worker 0, Invoke WaitAll, Client 1] (constructed 0))
       = [Returned None, WaitAll_Waiting]
   \<and> (2::nat) \<le> 1152921504606846975
   \<and> ConcurrentQueue 1152921504606846975 2 = Inr (constructed 2)
   \<and> threads (disp (constructed 2)) = [AtLoopTop, AtLoopTop]
   \<and> (1152921504606846976::nat) > 1152921504606846975
   \<and> ConcurrentQueue 1152921504606846975 1152921504606846976 = Inl Length_error
   \<and> (-1::int) < 0
   \<and> int 1152921504606846975 - (-1) < 2 ^ 64
   \<and> size_t_of_int 64 (-1) = 18446744073709551615
   \<and> ConcurrentQueue 1152921504606846975 (size_t_of_int 64 (-1)) = Inl Length_error"
proof -
  let ?evs = "[Invoke (Enqueue (Job 0 Returning)), Client 0, Client 0, Client 0,
        Worker 0, Invoke WaitAll, Client 1]"
  have c: "calls (run ?evs (constructed 0)) = [Returned None, WaitAll_Waiting]"
    by (simp add: model_defs)
  have r: "replicate 2 AtLoopTop = [AtLoopTop, AtLoopTop]"
    by (simp add: numeral_2_eq_2)
  have le: "(2::nat) \<le> 1152921504606846975" by simp
  have gt: "(1152921504606846976::nat) > 1152921504606846975" by simp
  have neg: "(-1::int) < 0 \<and> int 1152921504606846975 - (-1) < 2 ^ 64" by simp
  have v: "size_t_of_int 64 (-1) = 18446744073709551615"
    by (simp add: size_t_of_int_def)
  from constructor_accepts_zero[of 1152921504606846975 ?evs 2 "-1" 64] le neg
  have a: "ConcurrentQueue 1152921504606846975 0 = Inr (constructed 0)"
    "threads (disp (constructed 0)) = []" "jobsLeft (disp (constructed 0)) = 0"
    "executed (run ?evs (constructed 0)) = []"
    "ConcurrentQueue 1152921504606846975 2 = Inr (constructed 2)"
    "threads (disp (constructed 2)) = replicate 2 AtLoopTop"
    "ConcurrentQueue 1152921504606846975 (size_t_of_int 64 (-1)) = Inl Length_error"
    by blast+
  from constructor_accepts_zero[of 1152921504606846975 _ 1152921504606846976] gt
  have b: "ConcurrentQueue 1152921504606846975 1152921504606846976 = Inl Length_error"
    by blast
  from a b c r le gt neg v show ?thesis by simp
qed

text \<open>
  C5. A \<open>waitAll\<close> that finds \<open>jobsLeft = 0\<close> on entry returns in that very step,
  without waiting; one that finds it positive starts to wait. A waiting call does
  nothing until it is woken; a woken call returns if \<open>jobsLeft = 0\<close> and waits again
  otherwise. Whatever the event, a call leaves \<open>waitAll\<close> only by a step of its
  own, taken while \<open>jobsLeft\<close> is zero.
\<close>

theorem waitAll_returns_only_at_zero:
  assumes "halted s = None" and "i < length (calls s)"
  shows
  "(calls s ! i = WaitAll_Entry \<and> jobsLeft (disp s) = 0 \<longrightarrow>
      calls (step (Client i) s) ! i = Returned None)
   \<and> (calls s ! i = WaitAll_Entry \<and> jobsLeft (disp s) > 0 \<longrightarrow>
      calls (step (Client i) s) ! i = WaitAll_Waiting)
   \<and> (calls s ! i = WaitAll_Waiting \<longrightarrow> step (Client i) s = s)
   \<and> (calls s ! i = WaitAll_Woken \<and> jobsLeft (disp s) = 0 \<longrightarrow>
      calls (step (Client i) s) ! i = Returned None)
   \<and> (calls s ! i = WaitAll_Woken \<and> jobsLeft (disp s) > 0 \<longrightarrow>
      calls (step (Client i) s) ! i = WaitAll_Waiting)
   \<and> (in_waitAll (calls s ! i) \<and> \<not> in_waitAll (calls (step e s) ! i) \<longrightarrow>
      e = Client i \<and> calls s ! i \<noteq> WaitAll_Waiting
      \<and> jobsLeft (disp s) = 0 \<and> jobsLeft (disp (step e s)) = 0
      \<and> calls (step e s) ! i = Returned None)"
proof -
  have own: "calls s ! i = WaitAll_Entry \<and> jobsLeft (disp s) = 0 \<longrightarrow>
      calls (step (Client i) s) ! i = Returned None"
    "calls s ! i = WaitAll_Entry \<and> jobsLeft (disp s) > 0 \<longrightarrow>
      calls (step (Client i) s) ! i = WaitAll_Waiting"
    "calls s ! i = WaitAll_Waiting \<longrightarrow> step (Client i) s = s"
    "calls s ! i = WaitAll_Woken \<and> jobsLeft (disp s) = 0 \<longrightarrow>
      calls (step (Client i) s) ! i = Returned None"
    "calls s ! i = WaitAll_Woken \<and> jobsLeft (disp s) > 0 \<longrightarrow>
      calls (step (Client i) s) ! i = WaitAll_Waiting"
    using assms
    by (auto simp: step_def client_def set_call_def waitAll_entry_def waitAll_pred_def)
  have leave: "e = Client i \<and> calls s ! i \<noteq> WaitAll_Waiting
      \<and> jobsLeft (disp s) = 0 \<and> jobsLeft (disp (step e s)) = 0
      \<and> calls (step e s) ! i = Returned None"
    if w: "in_waitAll (calls s ! i)" and n: "\<not> in_waitAll (calls (step e s) ! i)"
  proof -
    have e: "e = Client i"
    proof (rule ccontr)
      assume "e \<noteq> Client i"
      from calls_step_other[OF this assms(2)] w have "in_waitAll (calls (step e s) ! i)"
        by (auto simp: in_waitAll_wake)
      with n show False by simp
    qed
    from w n assms show ?thesis unfolding e
      by (cases "calls s ! i")
         (auto simp: step_def client_def set_call_def waitAll_entry_def waitAll_pred_def
            split: if_splits)
  qed
  from own leave show ?thesis by blast
qed

text \<open>The theorem on concrete runs.\<close>

theorem waitAll_returns_only_at_zero_witness:
  "calls (run [Invoke WaitAll] (constructed 1)) ! 0 = WaitAll_Entry
   \<and> jobsLeft (disp (run [Invoke WaitAll] (constructed 1))) = 0
   \<and> calls (step (Client 0) (run [Invoke WaitAll] (constructed 1))) ! 0 = Returned None
   \<and> jobsLeft (disp (step (Client 0) (run [Invoke WaitAll] (constructed 1)))) = 0
   \<and> calls (run (take 3 run_waiter_woken) (constructed 1)) ! 1 = WaitAll_Entry
   \<and> jobsLeft (disp (run (take 3 run_waiter_woken) (constructed 1))) = 1
   \<and> calls (step (Client 1) (run (take 3 run_waiter_woken) (constructed 1))) ! 1
       = WaitAll_Waiting
   \<and> calls (run (take 4 run_waiter_woken) (constructed 1)) ! 1 = WaitAll_Waiting
   \<and> step (Client 1) (run (take 4 run_waiter_woken) (constructed 1))
       = run (take 4 run_waiter_woken) (constructed 1)
   \<and> calls (run run_waiter_woken (constructed 1)) ! 1 = WaitAll_Woken
   \<and> jobsLeft (disp (run run_waiter_woken (constructed 1))) = 0
   \<and> calls (step (Client 1) (run run_waiter_woken (constructed 1))) ! 1 = Returned None
   \<and> calls (run (run_waiter_woken @ [Invoke (Enqueue (Job 1 Returning)), Client 2])
        (constructed 1)) ! 1 = WaitAll_Woken
   \<and> jobsLeft (disp (run (run_waiter_woken @ [Invoke (Enqueue (Job 1 Returning)), Client 2])
        (constructed 1))) = 1
   \<and> calls (step (Client 1)
        (run (run_waiter_woken @ [Invoke (Enqueue (Job 1 Returning)), Client 2])
          (constructed 1))) ! 1 = WaitAll_Waiting"
proof -
  let ?a = "run [Invoke WaitAll] (constructed 1)"
  let ?b = "run (take 3 run_waiter_woken) (constructed 1)"
  let ?c = "run (take 4 run_waiter_woken) (constructed 1)"
  let ?d = "run run_waiter_woken (constructed 1)"
  let ?e = "run (run_waiter_woken @ [Invoke (Enqueue (Job 1 Returning)), Client 2])
        (constructed 1)"
  have a: "?a = \<lparr>disp = \<lparr>threads = [AtLoopTop], queue = [], jobsLeft = 0, bailout = False\<rparr>,
      calls = [WaitAll_Entry], executed = [], discarded = [], halted = None\<rparr>"
    by (simp add: model_defs)
  have b: "?b = \<lparr>disp = \<lparr>threads = [AtLoopTop], queue = [], jobsLeft = 1, bailout = False\<rparr>,
      calls = [Enqueue_Emplace (Job 0 Returning), WaitAll_Entry], executed = [],
      discarded = [], halted = None\<rparr>"
    by (simp add: run_waiter_woken_def model_defs)
  have c: "?c = \<lparr>disp = \<lparr>threads = [AtLoopTop], queue = [], jobsLeft = 1, bailout = False\<rparr>,
      calls = [Enqueue_Emplace (Job 0 Returning), WaitAll_Waiting], executed = [],
      discarded = [], halted = None\<rparr>"
    by (simp add: run_waiter_woken_def model_defs)
  have d: "?d = \<lparr>disp = \<lparr>threads = [AtLoopTop], queue = [], jobsLeft = 0, bailout = False\<rparr>,
      calls = [Returned None, WaitAll_Woken], executed = [Job 0 Returning],
      discarded = [], halted = None\<rparr>"
    by (simp add: run_waiter_woken_def model_defs)
  have e: "?e = \<lparr>disp = \<lparr>threads = [AtLoopTop], queue = [], jobsLeft = 1, bailout = False\<rparr>,
      calls = [Returned None, WaitAll_Woken, Enqueue_Emplace (Job 1 Returning)],
      executed = [Job 0 Returning], discarded = [], halted = None\<rparr>"
    by (simp add: run_waiter_woken_def model_defs)
  have ha: "halted ?a = None" "0 < length (calls ?a)" "calls ?a ! 0 = WaitAll_Entry"
      "jobsLeft (disp ?a) = 0"
    unfolding a by simp_all
  have hb: "halted ?b = None" "1 < length (calls ?b)" "calls ?b ! 1 = WaitAll_Entry"
      "jobsLeft (disp ?b) = 1"
    unfolding b by simp_all
  have hc: "halted ?c = None" "1 < length (calls ?c)" "calls ?c ! 1 = WaitAll_Waiting"
    unfolding c by simp_all
  have hd: "halted ?d = None" "1 < length (calls ?d)" "calls ?d ! 1 = WaitAll_Woken"
      "jobsLeft (disp ?d) = 0"
    unfolding d by simp_all
  have he: "halted ?e = None" "1 < length (calls ?e)" "calls ?e ! 1 = WaitAll_Woken"
      "jobsLeft (disp ?e) = 1"
    unfolding e by simp_all
  from waitAll_returns_only_at_zero[OF ha(1,2)] ha(3,4)
  have ra: "calls (step (Client 0) ?a) ! 0 = Returned None" by blast
  then have "in_waitAll (calls ?a ! 0) \<and> \<not> in_waitAll (calls (step (Client 0) ?a) ! 0)"
    using ha(3) by simp
  with waitAll_returns_only_at_zero[OF ha(1,2), of "Client 0"]
  have rf: "jobsLeft (disp (step (Client 0) ?a)) = 0" by blast
  from waitAll_returns_only_at_zero[OF hb(1,2)] hb(3,4)
  have rb: "calls (step (Client 1) ?b) ! 1 = WaitAll_Waiting" by simp
  from waitAll_returns_only_at_zero[OF hc(1,2)] hc(3)
  have rc: "step (Client 1) ?c = ?c" by blast
  from waitAll_returns_only_at_zero[OF hd(1,2)] hd(3,4)
  have rd: "calls (step (Client 1) ?d) ! 1 = Returned None" by blast
  from waitAll_returns_only_at_zero[OF he(1,2)] he(3,4)
  have re: "calls (step (Client 1) ?e) ! 1 = WaitAll_Waiting" by simp
  from ha hb hc hd he ra rb rc rd re rf show ?thesis by simp
qed

text \<open>
  C6, as the code has it. In a state reached from the constructor: when the job of
  a worker returns, the worker goes on to \<open>finalizeJobs(1)\<close>; there it finds
  \<open>jobsLeft \<ge> 1\<close>, subtracts exactly one in one critical section, and goes on to
  \<open>notify_all\<close> exactly when the counter has become zero; the \<open>notify_all\<close> leaves no
  call waiting in \<open>waitAll\<close>. The same holds for the decrement of \<open>cancelPending\<close>.
  No other thread moves a worker away from its \<open>finalizeJobs\<close> or its \<open>notify_all\<close>.
  When the job throws, the process stops with the exception and \<open>jobsLeft\<close> keeps
  its value: no decrement follows.
\<close>

theorem worker_finalizes_after_job_returns:
  assumes "s = run evs (constructed threadCount)"
    and "halted s = None" and "w < length (threads (disp s))"
  shows
  "(threads (disp s) ! w = Holding j \<and> invoke j = Returns \<longrightarrow>
      threads (disp (step (Worker w) s)) ! w = Finalizing
      \<and> executed (step (Worker w) s) = executed s @ [j]
      \<and> jobsLeft (disp (step (Worker w) s)) = jobsLeft (disp s)
      \<and> halted (step (Worker w) s) = None)
   \<and> (threads (disp s) ! w = Holding j \<and> invoke j = Throws \<longrightarrow>
      halted (step (Worker w) s) = Some UncaughtException
      \<and> executed (step (Worker w) s) = executed s @ [j]
      \<and> jobsLeft (disp (run later (step (Worker w) s))) = jobsLeft (disp s))
   \<and> (threads (disp s) ! w = Finalizing \<longrightarrow>
      1 \<le> jobsLeft (disp s)
      \<and> jobsLeft (disp (step (Worker w) s)) = jobsLeft (disp s) - 1
      \<and> halted (step (Worker w) s) = None
      \<and> threads (disp (step (Worker w) s)) ! w
          = (if jobsLeft (disp s) = 1 then Notifying else AtLoopTop)
      \<and> (e \<noteq> Worker w \<longrightarrow> threads (disp (step e s)) ! w = Finalizing))
   \<and> (threads (disp s) ! w = Notifying \<longrightarrow>
      calls (step (Worker w) s) = map wake_call (calls s)
      \<and> WaitAll_Waiting \<notin> set (calls (step (Worker w) s))
      \<and> disp (step (Worker w) s) = (disp s)\<lparr>threads := (threads (disp s))[w := AtLoopTop]\<rparr>
      \<and> (e \<noteq> Worker w \<longrightarrow> threads (disp (step e s)) ! w = Notifying))
   \<and> (i < length (calls s) \<and> calls s ! i = Cancel_Swapped oldQueue
        \<and> jobsLeft (disp s) = length oldQueue \<and> oldQueue \<noteq> [] \<longrightarrow>
      jobsLeft (disp (step (Client i) s)) = 0
      \<and> calls (step (Client i) s) ! i = Cancel_Notify (length oldQueue))
   \<and> (i < length (calls s) \<and> calls s ! i = Cancel_Notify size' \<longrightarrow>
      WaitAll_Waiting \<notin> set (calls (step (Client i) s)))"
proof (intro conjI impI; (elim conjE)?)
  assume "threads (disp s) ! w = Holding j" "invoke j = Returns"
  with assms(2,3) show "threads (disp (step (Worker w) s)) ! w = Finalizing"
    and "executed (step (Worker w) s) = executed s @ [j]"
    and "jobsLeft (disp (step (Worker w) s)) = jobsLeft (disp s)"
    and "halted (step (Worker w) s) = None"
    by (simp_all add: step_def worker_step_def set_worker_def)
next
  assume "threads (disp s) ! w = Holding j" "invoke j = Throws"
  with assms(2,3) have j: "jobsLeft (disp (step (Worker w) s)) = jobsLeft (disp s)"
    by (simp add: step_def worker_step_def set_worker_def)
  from \<open>threads (disp s) ! w = Holding j\<close> \<open>invoke j = Throws\<close> assms(2,3)
  show h: "halted (step (Worker w) s) = Some UncaughtException"
    and "executed (step (Worker w) s) = executed s @ [j]"
    by (simp_all add: step_def worker_step_def set_worker_def)
  from h have "run later (step (Worker w) s) = step (Worker w) s"
    by (simp add: halted_run)
  with j show "jobsLeft (disp (run later (step (Worker w) s))) = jobsLeft (disp s)"
    by simp
next
  assume f: "threads (disp s) ! w = Finalizing"
  have inv: "counter_inv s" unfolding assms(1) by (rule counter_inv_reachable)
  from due_le_jobsLeft_worker[OF inv assms(3)] f
  show le: "1 \<le> jobsLeft (disp s)" by simp
  from f le assms(2,3)
  show "jobsLeft (disp (step (Worker w) s)) = jobsLeft (disp s) - 1"
    and "halted (step (Worker w) s) = None"
    and "threads (disp (step (Worker w) s)) ! w
          = (if jobsLeft (disp s) = 1 then Notifying else AtLoopTop)"
    by (auto simp: step_def worker_step_def finalizeJobs_def set_worker_def)
  assume "e \<noteq> Worker w"
  from threads_step_other[OF this assms(3)] f
  show "threads (disp (step e s)) ! w = Finalizing"
    by (simp add: wake_worker_def)
next
  assume n: "threads (disp s) ! w = Notifying"
  with assms(2,3) show "calls (step (Worker w) s) = map wake_call (calls s)"
    and "WaitAll_Waiting \<notin> set (calls (step (Worker w) s))"
    and "disp (step (Worker w) s) = (disp s)\<lparr>threads := (threads (disp s))[w := AtLoopTop]\<rparr>"
    using no_waiter_after_notify_all[of "calls s"]
    by (simp_all add: step_def worker_step_def set_worker_def waitVar_notify_all_def)
  assume "e \<noteq> Worker w"
  from threads_step_other[OF this assms(3)] n
  show "threads (disp (step e s)) ! w = Notifying"
    by (simp add: wake_worker_def)
next
  assume "i < length (calls s)" "calls s ! i = Cancel_Swapped oldQueue"
    "jobsLeft (disp s) = length oldQueue" "oldQueue \<noteq> []"
  with assms(2) show "jobsLeft (disp (step (Client i) s)) = 0"
    and "calls (step (Client i) s) ! i = Cancel_Notify (length oldQueue)"
    by (simp_all add: step_def client_def finalizeJobs_def set_call_def)
next
  assume "i < length (calls s)" "calls s ! i = Cancel_Notify size'"
  with assms(2) no_waiter_after_update[of "Returned (Some size')" "calls s" i]
  show "WaitAll_Waiting \<notin> set (calls (step (Client i) s))"
    by (simp add: step_def client_def set_call_def waitVar_notify_all_def)
qed

text \<open>The sentence of the spec fails on this run: a worker holds a job that throws.
  Its next step runs the job and stops the process; the counter is still 1, and
  stays so.\<close>

theorem throwing_job_counterexample:
  "threads (disp (run run_throwing_job (constructed 1))) ! 0 = Holding (Job 0 Throwing)
   \<and> jobsLeft (disp (run run_throwing_job (constructed 1))) = 1
   \<and> executed (step (Worker 0) (run run_throwing_job (constructed 1))) = [Job 0 Throwing]
   \<and> halted (step (Worker 0) (run run_throwing_job (constructed 1)))
       = Some UncaughtException
   \<and> jobsLeft (disp (step (Worker 0) (run run_throwing_job (constructed 1)))) = 1
   \<and> jobsLeft (disp (run [Worker 0, Worker 0, Worker 0]
        (run run_throwing_job (constructed 1)))) = 1"
  by (simp add: run_throwing_job_def model_defs)

text \<open>The theorem on concrete runs.\<close>

theorem worker_finalizes_after_job_returns_witness:
  "threads (disp (run (take 7 run_waiter_woken) (constructed 1))) ! 0
     = Holding (Job 0 Returning)
   \<and> threads (disp (step (Worker 0) (run (take 7 run_waiter_woken) (constructed 1)))) ! 0
     = Finalizing
   \<and> executed (step (Worker 0) (run (take 7 run_waiter_woken) (constructed 1)))
     = [Job 0 Returning]
   \<and> threads (disp (run run_throwing_job (constructed 1))) ! 0 = Holding (Job 0 Throwing)
   \<and> halted (step (Worker 0) (run run_throwing_job (constructed 1)))
     = Some UncaughtException
   \<and> jobsLeft (disp (run [Worker 0, Invoke CancelPending, Client 1]
        (step (Worker 0) (run run_throwing_job (constructed 1))))) = 1
   \<and> threads (disp (run (take 8 run_waiter_woken) (constructed 1))) ! 0 = Finalizing
   \<and> jobsLeft (disp (run (take 8 run_waiter_woken) (constructed 1))) = 1
   \<and> jobsLeft (disp (step (Worker 0) (run (take 8 run_waiter_woken) (constructed 1)))) = 0
   \<and> threads (disp (step (Worker 0) (run (take 8 run_waiter_woken) (constructed 1)))) ! 0
     = Notifying
   \<and> threads (disp (step (Invoke WaitAll)
        (run (take 8 run_waiter_woken) (constructed 1)))) ! 0 = Finalizing
   \<and> threads (disp (run (take 9 run_waiter_woken) (constructed 1))) ! 0 = Notifying
   \<and> calls (run (take 9 run_waiter_woken) (constructed 1)) ! 1 = WaitAll_Waiting
   \<and> calls (step (Worker 0) (run (take 9 run_waiter_woken) (constructed 1)))
     = [Returned None, WaitAll_Woken]
   \<and> WaitAll_Waiting
       \<notin> set (calls (step (Worker 0) (run (take 9 run_waiter_woken) (constructed 1))))
   \<and> calls (run (run_cancel_entry @ [Client 1]) (constructed 1)) ! 1
     = Cancel_Swapped [Job 0 Returning]
   \<and> jobsLeft (disp (step (Client 1)
        (run (run_cancel_entry @ [Client 1]) (constructed 1)))) = 0
   \<and> calls (step (Client 1) (run (run_cancel_entry @ [Client 1]) (constructed 1))) ! 1
     = Cancel_Notify 1
   \<and> calls (run (run_cancel_entry @ [Client 1, Client 1]) (constructed 1)) ! 1
     = Cancel_Notify 1
   \<and> WaitAll_Waiting \<notin> set (calls (step (Client 1)
        (run (run_cancel_entry @ [Client 1, Client 1]) (constructed 1))))"
proof -
  let ?a = "run (take 7 run_waiter_woken) (constructed 1)"
  let ?b = "run run_throwing_job (constructed 1)"
  let ?c = "run (take 8 run_waiter_woken) (constructed 1)"
  let ?d = "run (take 9 run_waiter_woken) (constructed 1)"
  let ?e = "run (run_cancel_entry @ [Client 1]) (constructed 1)"
  let ?f = "run (run_cancel_entry @ [Client 1, Client 1]) (constructed 1)"
  have a: "?a = \<lparr>disp = \<lparr>threads = [Holding (Job 0 Returning)], queue = [], jobsLeft = 1,
        bailout = False\<rparr>,
      calls = [Returned None, WaitAll_Waiting], executed = [], discarded = [], halted = None\<rparr>"
    by (simp add: run_waiter_woken_def model_defs)
  have b: "?b = \<lparr>disp = \<lparr>threads = [Holding (Job 0 Throwing)], queue = [], jobsLeft = 1,
        bailout = False\<rparr>,
      calls = [Returned None], executed = [], discarded = [], halted = None\<rparr>"
    by (simp add: run_throwing_job_def model_defs)
  have c: "?c = \<lparr>disp = \<lparr>threads = [Finalizing], queue = [], jobsLeft = 1, bailout = False\<rparr>,
      calls = [Returned None, WaitAll_Waiting], executed = [Job 0 Returning],
      discarded = [], halted = None\<rparr>"
    by (simp add: run_waiter_woken_def model_defs)
  have d: "?d = \<lparr>disp = \<lparr>threads = [Notifying], queue = [], jobsLeft = 0, bailout = False\<rparr>,
      calls = [Returned None, WaitAll_Waiting], executed = [Job 0 Returning],
      discarded = [], halted = None\<rparr>"
    by (simp add: run_waiter_woken_def model_defs)
  have e: "?e = \<lparr>disp = \<lparr>threads = [AtLoopTop], queue = [], jobsLeft = 1, bailout = False\<rparr>,
      calls = [Returned None, Cancel_Swapped [Job 0 Returning]], executed = [],
      discarded = [Job 0 Returning], halted = None\<rparr>"
    by (simp add: run_cancel_entry_def model_defs)
  have f: "?f = \<lparr>disp = \<lparr>threads = [AtLoopTop], queue = [], jobsLeft = 0, bailout = False\<rparr>,
      calls = [Returned None, Cancel_Notify 1], executed = [],
      discarded = [Job 0 Returning], halted = None\<rparr>"
    by (simp add: run_cancel_entry_def model_defs)
  have ha: "halted ?a = None" "0 < length (threads (disp ?a))"
      "threads (disp ?a) ! 0 = Holding (Job 0 Returning)" "executed ?a = []"
    unfolding a by simp_all
  have hb: "halted ?b = None" "0 < length (threads (disp ?b))"
      "threads (disp ?b) ! 0 = Holding (Job 0 Throwing)" "jobsLeft (disp ?b) = 1"
    unfolding b by simp_all
  have hc: "halted ?c = None" "0 < length (threads (disp ?c))"
      "threads (disp ?c) ! 0 = Finalizing" "jobsLeft (disp ?c) = 1"
    unfolding c by simp_all
  have hd: "halted ?d = None" "0 < length (threads (disp ?d))"
      "threads (disp ?d) ! 0 = Notifying" "calls ?d ! 1 = WaitAll_Waiting"
      "calls ?d = [Returned None, WaitAll_Waiting]"
    unfolding d by simp_all
  have he: "halted ?e = None" "0 < length (threads (disp ?e))" "1 < length (calls ?e)"
      "calls ?e ! 1 = Cancel_Swapped [Job 0 Returning]"
      "jobsLeft (disp ?e) = length [Job 0 Returning]"
    unfolding e by simp_all
  have hf: "halted ?f = None" "0 < length (threads (disp ?f))" "1 < length (calls ?f)"
      "calls ?f ! 1 = Cancel_Notify 1"
    unfolding f by simp_all
  from worker_finalizes_after_job_returns[OF refl ha(1,2), of "Job 0 Returning"] ha(3)
  have ra: "threads (disp (step (Worker 0) ?a)) ! 0 = Finalizing"
    "executed (step (Worker 0) ?a) = executed ?a @ [Job 0 Returning]"
    by simp_all
  from worker_finalizes_after_job_returns[OF refl hb(1,2), of "Job 0 Throwing"
      "[Worker 0, Invoke CancelPending, Client 1]"] hb(3)
  have rb: "halted (step (Worker 0) ?b) = Some UncaughtException"
    "jobsLeft (disp (run [Worker 0, Invoke CancelPending, Client 1] (step (Worker 0) ?b)))
       = jobsLeft (disp ?b)"
    by simp_all
  from worker_finalizes_after_job_returns[OF refl hc(1,2), of _ _ "Invoke WaitAll"] hc(3)
  have rc: "jobsLeft (disp (step (Worker 0) ?c)) = jobsLeft (disp ?c) - 1"
    "threads (disp (step (Worker 0) ?c)) ! 0
       = (if jobsLeft (disp ?c) = 1 then Notifying else AtLoopTop)"
    "threads (disp (step (Invoke WaitAll) ?c)) ! 0 = Finalizing"
    by simp_all
  from worker_finalizes_after_job_returns[OF refl hd(1,2)] hd(3)
  have rd: "calls (step (Worker 0) ?d) = map wake_call (calls ?d)"
    "WaitAll_Waiting \<notin> set (calls (step (Worker 0) ?d))"
    by blast+
  from worker_finalizes_after_job_returns[OF refl he(1,2), of _ _ _ 1 "[Job 0 Returning]"]
    he(3,4,5)
  have re: "jobsLeft (disp (step (Client 1) ?e)) = 0"
    "calls (step (Client 1) ?e) ! 1 = Cancel_Notify (length [Job 0 Returning])"
    by simp_all
  from worker_finalizes_after_job_returns[OF refl hf(1,2), of _ _ _ 1 _ 1] hf(3,4)
  have rf: "WaitAll_Waiting \<notin> set (calls (step (Client 1) ?f))"
    by blast
  from ha hb hc hd he hf ra rb rc rd re rf show ?thesis
    by (simp add: wake_call_def)
qed

text \<open>
  C7. The first step of \<open>joinAll\<close> leaves \<open>bailout\<close> set, no step of any thread
  unsets it, and a \<open>joinAll\<close> that finds it set returns at once: no member of the
  dispatcher changes, nothing is logged and the process is not stopped.
\<close>

theorem joinAll_second_call_is_noop:
  "(halted s = None \<and> i < length (calls s) \<and> calls s ! i = JoinAll_Entry
      \<longrightarrow> bailout (disp (step (Client i) s)))
   \<and> (bailout (disp s) \<longrightarrow> bailout (disp (step e s)))
   \<and> (halted s = None \<and> i < length (calls s) \<and> calls s ! i = JoinAll_Entry
        \<and> bailout (disp s)
      \<longrightarrow> step (Client i) s = s\<lparr>calls := (calls s)[i := Returned None]\<rparr>)"
proof (intro conjI impI)
  assume "halted s = None \<and> i < length (calls s) \<and> calls s ! i = JoinAll_Entry"
  then have "step (Client i) s = client i s" and "calls s ! i = JoinAll_Entry"
    by (simp_all add: step_Client)
  then show "bailout (disp (step (Client i) s))"
    by (cases "bailout (disp s)") (simp_all add: client_def joinAll_entry_def set_call_def)
next
  assume "bailout (disp s)"
  then show "bailout (disp (step e s))" by (rule bailout_step)
next
  assume "halted s = None \<and> i < length (calls s) \<and> calls s ! i = JoinAll_Entry
        \<and> bailout (disp s)"
  then have "step (Client i) s = client i s" and "calls s ! i = JoinAll_Entry"
    and early: "joinAll_entry (disp s) = (True, disp s)"
    by (simp_all add: step_Client joinAll_entry_def)
  then show "step (Client i) s = s\<lparr>calls := (calls s)[i := Returned None]\<rparr>"
    by (simp add: client_def set_call_def)
qed

text \<open>The theorem on concrete runs.\<close>

theorem joinAll_second_call_is_noop_witness:
  "calls (run [Invoke JoinAll] (constructed 1)) ! 0 = JoinAll_Entry
   \<and> bailout (disp (run [Invoke JoinAll] (constructed 1))) = False
   \<and> bailout (disp (step (Client 0) (run [Invoke JoinAll] (constructed 1))))
   \<and> calls (run [Invoke JoinAll, Client 0, Invoke JoinAll] (constructed 1)) ! 1
       = JoinAll_Entry
   \<and> bailout (disp (run [Invoke JoinAll, Client 0, Invoke JoinAll] (constructed 1)))
   \<and> bailout (disp (step (Worker 0)
        (run [Invoke JoinAll, Client 0, Invoke JoinAll] (constructed 1))))
   \<and> step (Client 1) (run [Invoke JoinAll, Client 0, Invoke JoinAll] (constructed 1))
       = \<lparr>disp = \<lparr>threads = [AtLoopTop], queue = [], jobsLeft = 0, bailout = True\<rparr>,
          calls = [JoinAll_Notify, Returned None], executed = [], discarded = [],
          halted = None\<rparr>"
proof -
  let ?a = "run [Invoke JoinAll] (constructed 1)"
  let ?b = "run [Invoke JoinAll, Client 0, Invoke JoinAll] (constructed 1)"
  have a: "?a = \<lparr>disp = \<lparr>threads = [AtLoopTop], queue = [], jobsLeft = 0, bailout = False\<rparr>,
      calls = [JoinAll_Entry], executed = [], discarded = [], halted = None\<rparr>"
    by (simp add: model_defs)
  have b: "?b = \<lparr>disp = \<lparr>threads = [AtLoopTop], queue = [], jobsLeft = 0, bailout = True\<rparr>,
      calls = [JoinAll_Notify, JoinAll_Entry], executed = [], discarded = [], halted = None\<rparr>"
    by (simp add: model_defs)
  have ha: "halted ?a = None \<and> 0 < length (calls ?a) \<and> calls ?a ! 0 = JoinAll_Entry"
      "bailout (disp ?a) = False"
    unfolding a by simp_all
  have hb: "halted ?b = None \<and> 1 < length (calls ?b) \<and> calls ?b ! 1 = JoinAll_Entry
      \<and> bailout (disp ?b)" "bailout (disp ?b)"
    unfolding b by simp_all
  from joinAll_second_call_is_noop[of ?a 0] ha(1)
  have ra: "bailout (disp (step (Client 0) ?a))" by blast
  from joinAll_second_call_is_noop[of ?b 1 "Worker 0"] hb
  have rb: "bailout (disp (step (Worker 0) ?b))"
    "step (Client 1) ?b = ?b\<lparr>calls := (calls ?b)[1 := Returned None]\<rparr>"
    by blast+
  have "?b\<lparr>calls := (calls ?b)[1 := Returned None]\<rparr>
      = \<lparr>disp = \<lparr>threads = [AtLoopTop], queue = [], jobsLeft = 0, bailout = True\<rparr>,
          calls = [JoinAll_Notify, Returned None], executed = [], discarded = [],
          halted = None\<rparr>"
    unfolding b by simp
  with ha hb ra rb show ?thesis by simp
qed

text \<open>
  C8. A \<open>cancelPending\<close> that finds the queue empty changes nothing but its own
  progress: its swap leaves the dispatcher and the logs as they are, and, having
  taken out no job, it returns 0 without calling \<open>finalizeJobs\<close>.
\<close>

theorem cancelPending_on_empty_queue:
  "(halted s = None \<and> i < length (calls s) \<and> calls s ! i = Cancel_Entry
       \<and> queue (disp s) = []
     \<longrightarrow> step (Client i) s = s\<lparr>calls := (calls s)[i := Cancel_Swapped []]\<rparr>
       \<and> run [Client i, Client i] s = s\<lparr>calls := (calls s)[i := Returned (Some 0)]\<rparr>)
   \<and> (halted s = None \<and> i < length (calls s) \<and> calls s ! i = Cancel_Swapped []
     \<longrightarrow> step (Client i) s = s\<lparr>calls := (calls s)[i := Returned (Some 0)]\<rparr>)"
proof (intro conjI impI)
  assume a: "halted s = None \<and> i < length (calls s) \<and> calls s ! i = Cancel_Entry
       \<and> queue (disp s) = []"
  then have swap: "cancelPending_swap (disp s) = ([], disp s)"
    by (simp add: cancelPending_swap_def)
  with a show first: "step (Client i) s = s\<lparr>calls := (calls s)[i := Cancel_Swapped []]\<rparr>"
    by (simp add: step_Client client_def set_call_def)
  from a have "step (Client i) (s\<lparr>calls := (calls s)[i := Cancel_Swapped []]\<rparr>)
      = s\<lparr>calls := (calls s)[i := Returned (Some 0)]\<rparr>"
    by (simp add: step_def client_def set_call_def)
  with first show "run [Client i, Client i] s = s\<lparr>calls := (calls s)[i := Returned (Some 0)]\<rparr>"
    by simp
next
  assume "halted s = None \<and> i < length (calls s) \<and> calls s ! i = Cancel_Swapped []"
  then show "step (Client i) s = s\<lparr>calls := (calls s)[i := Returned (Some 0)]\<rparr>"
    by (simp add: step_Client client_def set_call_def)
qed

text \<open>The theorem on concrete runs.\<close>

theorem cancelPending_on_empty_queue_witness:
  "calls (run [Invoke CancelPending] (constructed 1)) ! 0 = Cancel_Entry
   \<and> queue (disp (run [Invoke CancelPending] (constructed 1))) = []
   \<and> run [Client 0, Client 0] (run [Invoke CancelPending] (constructed 1))
       = \<lparr>disp = \<lparr>threads = [AtLoopTop], queue = [], jobsLeft = 0, bailout = False\<rparr>,
          calls = [Returned (Some 0)], executed = [], discarded = [], halted = None\<rparr>
   \<and> disp (run [Invoke CancelPending] (constructed 1))
       = \<lparr>threads = [AtLoopTop], queue = [], jobsLeft = 0, bailout = False\<rparr>
   \<and> calls (run [Invoke CancelPending, Client 0] (constructed 1)) ! 0 = Cancel_Swapped []
   \<and> step (Client 0) (run [Invoke CancelPending, Client 0] (constructed 1))
       = \<lparr>disp = \<lparr>threads = [AtLoopTop], queue = [], jobsLeft = 0, bailout = False\<rparr>,
          calls = [Returned (Some 0)], executed = [], discarded = [], halted = None\<rparr>"
proof -
  let ?a = "run [Invoke CancelPending] (constructed 1)"
  let ?b = "run [Invoke CancelPending, Client 0] (constructed 1)"
  have a: "?a = \<lparr>disp = \<lparr>threads = [AtLoopTop], queue = [], jobsLeft = 0, bailout = False\<rparr>,
      calls = [Cancel_Entry], executed = [], discarded = [], halted = None\<rparr>"
    by (simp add: model_defs)
  have b: "?b = \<lparr>disp = \<lparr>threads = [AtLoopTop], queue = [], jobsLeft = 0, bailout = False\<rparr>,
      calls = [Cancel_Swapped []], executed = [], discarded = [], halted = None\<rparr>"
    by (simp add: model_defs)
  have ha: "halted ?a = None \<and> 0 < length (calls ?a) \<and> calls ?a ! 0 = Cancel_Entry
      \<and> queue (disp ?a) = []"
    unfolding a by simp
  have hb: "halted ?b = None \<and> 0 < length (calls ?b) \<and> calls ?b ! 0 = Cancel_Swapped []"
    unfolding b by simp
  from cancelPending_on_empty_queue[of ?a 0] ha
  have ra: "run [Client 0, Client 0] ?a = ?a\<lparr>calls := (calls ?a)[0 := Returned (Some 0)]\<rparr>"
    by blast
  from cancelPending_on_empty_queue[of ?b 0] hb
  have rb: "step (Client 0) ?b = ?b\<lparr>calls := (calls ?b)[0 := Returned (Some 0)]\<rparr>"
    by blast
  have va: "?a\<lparr>calls := (calls ?a)[0 := Returned (Some 0)]\<rparr>
      = \<lparr>disp = \<lparr>threads = [AtLoopTop], queue = [], jobsLeft = 0, bailout = False\<rparr>,
          calls = [Returned (Some 0)], executed = [], discarded = [], halted = None\<rparr>"
    unfolding a by simp
  have vb: "?b\<lparr>calls := (calls ?b)[0 := Returned (Some 0)]\<rparr>
      = \<lparr>disp = \<lparr>threads = [AtLoopTop], queue = [], jobsLeft = 0, bailout = False\<rparr>,
          calls = [Returned (Some 0)], executed = [], discarded = [], halted = None\<rparr>"
    unfolding b by simp
  have da: "disp ?a = \<lparr>threads = [AtLoopTop], queue = [], jobsLeft = 0, bailout = False\<rparr>"
    unfolding a by simp
  from ha hb ra rb va vb da show ?thesis by simp
qed

text \<open>
  C9. The assertions of \<open>finalizeJobs\<close> never fire. No run from the constructor is
  stopped by one of them (the only fault a run can end with is an exception thrown
  by a job). In every reachable state, a worker about to call \<open>finalizeJobs(1)\<close>
  finds \<open>jobsLeft \<ge> 1\<close>, and a \<open>cancelPending\<close> about to call \<open>finalizeJobs(size)\<close>,
  which it does only when \<open>size \<noteq> 0\<close>, finds \<open>jobsLeft \<ge> size\<close>: both calls pass
  both assertions and subtract without underflow.
\<close>

theorem finalizeJobs_assertions_hold:
  "(halted (run evs (constructed threadCount)) = None
      \<or> halted (run evs (constructed threadCount)) = Some UncaughtException)
   \<and> (\<forall>w. w < length (threads (disp (run evs (constructed threadCount))))
          \<and> threads (disp (run evs (constructed threadCount))) ! w = Finalizing
        \<longrightarrow> (0::nat) < 1 \<and> 1 \<le> jobsLeft (disp (run evs (constructed threadCount)))
          \<and> finalizeJobs 1 (disp (run evs (constructed threadCount)))
              = Inr (jobsLeft (disp (run evs (constructed threadCount))) - 1,
                  (disp (run evs (constructed threadCount)))
                    \<lparr>jobsLeft := jobsLeft (disp (run evs (constructed threadCount))) - 1\<rparr>))
   \<and> (\<forall>i oldQueue. i < length (calls (run evs (constructed threadCount)))
          \<and> calls (run evs (constructed threadCount)) ! i = Cancel_Swapped oldQueue
          \<and> length oldQueue \<noteq> 0
        \<longrightarrow> 0 < length oldQueue
          \<and> length oldQueue \<le> jobsLeft (disp (run evs (constructed threadCount)))
          \<and> finalizeJobs (length oldQueue) (disp (run evs (constructed threadCount)))
              = Inr (jobsLeft (disp (run evs (constructed threadCount))) - length oldQueue,
                  (disp (run evs (constructed threadCount)))
                    \<lparr>jobsLeft := jobsLeft (disp (run evs (constructed threadCount)))
                        - length oldQueue\<rparr>))"
proof -
  let ?s = "run evs (constructed threadCount)"
  have inv: "counter_inv ?s" by (rule counter_inv_reachable)
  have "no_assert_fault ?s" by (rule no_assert_fault_reachable)
  then have a: "halted ?s = None \<or> halted ?s = Some UncaughtException"
    by (simp add: no_assert_fault_def)
  have b: "1 \<le> jobsLeft (disp ?s)"
    if "w < length (threads (disp ?s))" "threads (disp ?s) ! w = Finalizing" for w
    using due_le_jobsLeft_worker[OF inv that(1)] that(2) by simp
  have c: "length old \<le> jobsLeft (disp ?s)"
    if "i < length (calls ?s)" "calls ?s ! i = Cancel_Swapped old" for i old
    using due_le_jobsLeft_call[OF inv that(1)] that(2) by simp
  from a b c show ?thesis
    by (auto simp: finalizeJobs_def)
qed

text \<open>The theorem on concrete runs.\<close>

theorem finalizeJobs_assertions_hold_witness:
  "halted (run run_before_finalize (constructed 1)) = None
   \<and> threads (disp (run run_before_finalize (constructed 1))) ! 0 = Finalizing
   \<and> calls (run run_before_finalize (constructed 1)) ! 2 = Cancel_Swapped [Job 1 Returning]
   \<and> jobsLeft (disp (run run_before_finalize (constructed 1))) = 2
   \<and> finalizeJobs 1 (disp (run run_before_finalize (constructed 1)))
       = Inr (1, (disp (run run_before_finalize (constructed 1)))\<lparr>jobsLeft := 1\<rparr>)
   \<and> finalizeJobs (length [Job 1 Returning]) (disp (run run_before_finalize (constructed 1)))
       = Inr (1, (disp (run run_before_finalize (constructed 1)))\<lparr>jobsLeft := 1\<rparr>)"
proof -
  let ?s = "run run_before_finalize (constructed 1)"
  have s: "?s = \<lparr>disp = \<lparr>threads = [Finalizing], queue = [], jobsLeft = 2, bailout = False\<rparr>,
      calls = [Returned None, Enqueue_Notify, Cancel_Swapped [Job 1 Returning]],
      executed = [Job 0 Returning], discarded = [Job 1 Returning], halted = None\<rparr>"
    by (simp add: run_before_finalize_def model_defs)
  have w: "0 < length (threads (disp ?s)) \<and> threads (disp ?s) ! 0 = Finalizing"
    unfolding s by simp
  have c: "2 < length (calls ?s) \<and> calls ?s ! 2 = Cancel_Swapped [Job 1 Returning]
      \<and> length [Job 1 Returning] \<noteq> 0"
    unfolding s by simp
  from finalizeJobs_assertions_hold[of run_before_finalize 1] w c
  have "finalizeJobs 1 (disp ?s) = Inr (jobsLeft (disp ?s) - 1, (disp ?s)\<lparr>jobsLeft := jobsLeft (disp ?s) - 1\<rparr>)"
    and "finalizeJobs (length [Job 1 Returning]) (disp ?s)
      = Inr (jobsLeft (disp ?s) - length [Job 1 Returning],
          (disp ?s)\<lparr>jobsLeft := jobsLeft (disp ?s) - length [Job 1 Returning]\<rparr>)"
    by blast+
  then show ?thesis unfolding s by simp
qed

text \<open>
  C10. A step of a call inside \<open>waitAll\<close>, and a spurious wake-up of such a call,
  change nothing but where that call stands: the threads, the queue, \<open>jobsLeft\<close>,
  \<open>bailout\<close>, the logs, the fault and every other call are as before. Hence after
  any run, whatever the call has done in it, all of these are what the same run
  without the events of that call yields.
\<close>

theorem waitAll_changes_no_member:
  "i < length (calls s) \<and> in_waitAll (calls s ! i)
   \<longrightarrow> disp (step (Client i) s) = disp s
     \<and> executed (step (Client i) s) = executed s
     \<and> discarded (step (Client i) s) = discarded s
     \<and> halted (step (Client i) s) = halted s
     \<and> calls (step (Client i) s) = (calls s)[i := calls (step (Client i) s) ! i]
     \<and> (in_waitAll (calls (step (Client i) s) ! i)
          \<or> calls (step (Client i) s) ! i = Returned None)
     \<and> step (Spurious_waitVar i) s
         = s\<lparr>calls := (calls s)[i := calls (step (Spurious_waitVar i) s) ! i]\<rparr>
     \<and> in_waitAll (calls (step (Spurious_waitVar i) s) ! i)
     \<and> disp (run evs s) = disp (run (without_call i evs) s)
     \<and> executed (run evs s) = executed (run (without_call i evs) s)
     \<and> discarded (run evs s) = discarded (run (without_call i evs) s)
     \<and> halted (run evs s) = halted (run (without_call i evs) s)
     \<and> (calls (run evs s))[i := Returned None]
         = (calls (run (without_call i evs) s))[i := Returned None]"
proof (intro impI, elim conjE)
  assume i: "i < length (calls s)" and w: "in_waitAll (calls s ! i)"
  from w have q: "quiet (calls s ! i)" by (simp add: quiet_def)
  have steps: "disp (step (Client i) s) = disp s
     \<and> executed (step (Client i) s) = executed s
     \<and> discarded (step (Client i) s) = discarded s
     \<and> halted (step (Client i) s) = halted s
     \<and> calls (step (Client i) s) = (calls s)[i := calls (step (Client i) s) ! i]
     \<and> (in_waitAll (calls (step (Client i) s) ! i)
          \<or> calls (step (Client i) s) ! i = Returned None)
     \<and> step (Spurious_waitVar i) s
         = s\<lparr>calls := (calls s)[i := calls (step (Spurious_waitVar i) s) ! i]\<rparr>
     \<and> in_waitAll (calls (step (Spurious_waitVar i) s) ! i)"
    using i w
    by (cases "calls s ! i")
       (auto simp: step_def client_def set_call_def list_update_nth_same)
  have same: "returned_at i (run evs s) = returned_at i (run (without_call i evs) s)"
    using i q by (rule returned_at_same_run)
  from returned_at_fields[OF same]
  have fields: "disp (run evs s) = disp (run (without_call i evs) s)
     \<and> executed (run evs s) = executed (run (without_call i evs) s)
     \<and> discarded (run evs s) = discarded (run (without_call i evs) s)
     \<and> halted (run evs s) = halted (run (without_call i evs) s)" .
  from same have "calls (returned_at i (run evs s))
      = calls (returned_at i (run (without_call i evs) s))"
    by simp
  then have others: "(calls (run evs s))[i := Returned None]
         = (calls (run (without_call i evs) s))[i := Returned None]"
    by (simp add: returned_at_def)
  from steps fields others
  show "disp (step (Client i) s) = disp s
     \<and> executed (step (Client i) s) = executed s
     \<and> discarded (step (Client i) s) = discarded s
     \<and> halted (step (Client i) s) = halted s
     \<and> calls (step (Client i) s) = (calls s)[i := calls (step (Client i) s) ! i]
     \<and> (in_waitAll (calls (step (Client i) s) ! i)
          \<or> calls (step (Client i) s) ! i = Returned None)
     \<and> step (Spurious_waitVar i) s
         = s\<lparr>calls := (calls s)[i := calls (step (Spurious_waitVar i) s) ! i]\<rparr>
     \<and> in_waitAll (calls (step (Spurious_waitVar i) s) ! i)
     \<and> disp (run evs s) = disp (run (without_call i evs) s)
     \<and> executed (run evs s) = executed (run (without_call i evs) s)
     \<and> discarded (run evs s) = discarded (run (without_call i evs) s)
     \<and> halted (run evs s) = halted (run (without_call i evs) s)
     \<and> (calls (run evs s))[i := Returned None]
         = (calls (run (without_call i evs) s))[i := Returned None]"
    by blast
qed

text \<open>The theorem on concrete runs.\<close>

theorem waitAll_changes_no_member_witness:
  "calls (run (take 3 run_waiter_woken) (constructed 1)) ! 1 = WaitAll_Entry
   \<and> disp (step (Client 1) (run (take 3 run_waiter_woken) (constructed 1)))
       = \<lparr>threads = [AtLoopTop], queue = [], jobsLeft = 1, bailout = False\<rparr>
   \<and> disp (run (take 3 run_waiter_woken) (constructed 1))
       = \<lparr>threads = [AtLoopTop], queue = [], jobsLeft = 1, bailout = False\<rparr>
   \<and> halted (step (Client 1) (run (take 3 run_waiter_woken) (constructed 1))) = None
   \<and> calls (run (take 4 run_waiter_woken) (constructed 1)) ! 1 = WaitAll_Waiting
   \<and> disp (step (Spurious_waitVar 1) (run (take 4 run_waiter_woken) (constructed 1)))
       = disp (run (take 4 run_waiter_woken) (constructed 1))
   \<and> calls (step (Spurious_waitVar 1) (run (take 4 run_waiter_woken) (constructed 1)))
       = [Enqueue_Emplace (Job 0 Returning), WaitAll_Woken]
   \<and> without_call 1 (drop 3 run_waiter_woken @ [Client 1])
       = [Client 0, Client 0, Worker 0, Worker 0, Worker 0, Worker 0]
   \<and> calls (run (drop 3 run_waiter_woken @ [Client 1])
        (run (take 3 run_waiter_woken) (constructed 1))) ! 1 = Returned None
   \<and> disp (run (drop 3 run_waiter_woken @ [Client 1])
        (run (take 3 run_waiter_woken) (constructed 1)))
       = \<lparr>threads = [AtLoopTop], queue = [], jobsLeft = 0, bailout = False\<rparr>
   \<and> disp (run [Client 0, Client 0, Worker 0, Worker 0, Worker 0, Worker 0]
        (run (take 3 run_waiter_woken) (constructed 1)))
       = \<lparr>threads = [AtLoopTop], queue = [], jobsLeft = 0, bailout = False\<rparr>"
proof -
  let ?a = "run (take 3 run_waiter_woken) (constructed 1)"
  let ?b = "run (take 4 run_waiter_woken) (constructed 1)"
  let ?evs = "drop 3 run_waiter_woken @ [Client 1]"
  have a: "?a = \<lparr>disp = \<lparr>threads = [AtLoopTop], queue = [], jobsLeft = 1, bailout = False\<rparr>,
      calls = [Enqueue_Emplace (Job 0 Returning), WaitAll_Entry], executed = [],
      discarded = [], halted = None\<rparr>"
    by (simp add: run_waiter_woken_def model_defs)
  have b: "?b = \<lparr>disp = \<lparr>threads = [AtLoopTop], queue = [], jobsLeft = 1, bailout = False\<rparr>,
      calls = [Enqueue_Emplace (Job 0 Returning), WaitAll_Waiting], executed = [],
      discarded = [], halted = None\<rparr>"
    by (simp add: run_waiter_woken_def model_defs)
  have ha: "1 < length (calls ?a) \<and> in_waitAll (calls ?a ! 1)"
      "calls ?a ! 1 = WaitAll_Entry" "halted ?a = None"
      "disp ?a = \<lparr>threads = [AtLoopTop], queue = [], jobsLeft = 1, bailout = False\<rparr>"
    unfolding a by simp_all
  have hb: "1 < length (calls ?b) \<and> in_waitAll (calls ?b ! 1)"
      "calls ?b ! 1 = WaitAll_Waiting"
    unfolding b by simp_all
  have w: "without_call 1 ?evs = [Client 0, Client 0, Worker 0, Worker 0, Worker 0, Worker 0]"
    by (simp add: without_call_def run_waiter_woken_def)
  from waitAll_changes_no_member[of 1 ?a ?evs] ha(1)
  have ra: "disp (step (Client 1) ?a) = disp ?a" "halted (step (Client 1) ?a) = halted ?a"
    "disp (run ?evs ?a) = disp (run (without_call 1 ?evs) ?a)"
    by blast+
  from waitAll_changes_no_member[of 1 ?b] hb(1)
  have rb: "step (Spurious_waitVar 1) ?b
      = ?b\<lparr>calls := (calls ?b)[1 := calls (step (Spurious_waitVar 1) ?b) ! 1]\<rparr>"
    by blast
  then have rb1: "disp (step (Spurious_waitVar 1) ?b) = disp ?b"
    by (metis (no_types) system.select_convs(1) system.surjective system.update_convs(2))
  have rb2: "calls (step (Spurious_waitVar 1) ?b)
      = [Enqueue_Emplace (Job 0 Returning), WaitAll_Woken]"
    unfolding b by (simp add: model_defs)
  have v: "disp (run [Client 0, Client 0, Worker 0, Worker 0, Worker 0, Worker 0] ?a)
      = \<lparr>threads = [AtLoopTop], queue = [], jobsLeft = 0, bailout = False\<rparr>"
    unfolding a by (simp add: model_defs)
  have r: "calls (run ?evs ?a) ! 1 = Returned None"
    unfolding a by (simp add: run_waiter_woken_def model_defs)
  from ha hb ra rb1 rb2 w v r show ?thesis by simp
qed

end
